theory Spec2Isabelle
  imports Complex_Main "HOL-Library.Word" "HOL-Library.Signed_Division" "HOL-Library.Char_ord"
begin

section \<open>Error codes (error.h)\<close>

datatype cb_error_t =
    CB_OK | CB_ERR_ALLOC | CB_ERR_PIPE | CB_ERR_FORK | CB_ERR_THREAD | CB_ERR_MUTEX
  | CB_ERR_IO | CB_ERR_INPUT | CB_ERR_PLATFORM | CB_ERR_TIMEOUT | CB_ERR_OVERFLOW
  | CB_ERR_ARGS | CB_ERR_SHM

section \<open>Data types (types.h, worker.h)\<close>

text \<open>
  A C \<open>double\<close> is modelled by the real number it denotes, so comparisons of doubles
  are the comparisons of reals. Arithmetic on doubles rounds: following IEEE 754, every
  \<open>+\<close>, \<open>-\<close>, \<open>*\<close>, \<open>/\<close> and \<open>sqrt\<close> is the exact result passed through a
  rounding function \<open>rnd\<close>, which is a parameter of every function that computes with
  doubles. \<open>\<lambda>x. x\<close> is arithmetic without rounding error; \<open>rnd64\<close> (below) is binary64
  round-to-nearest-even. NaN and infinities are not modelled.

  \<open>long int\<close> is a two's complement word whose width \<open>'l\<close> is left open (64 bits on
  LP64 Unix, 32 bits on Windows); the \<open>int\<close> elements of the dataset are modelled by
  their values and converted with \<open>word_of_int\<close>. Array indices and counters are C
  \<open>int\<close>s modelled by their values; for the configurations the input layer admits they
  stay far below \<open>INT_MAX\<close>. A pointer argument is an \<open>option\<close>: \<open>None\<close> is
  \<open>NULL\<close>, \<open>Some v\<close> points to an object holding \<open>v\<close>. Output to stdout/stderr
  is not modelled.
\<close>

record 's cb_result_t =
  result_sum :: "'s"
  elapsed_sec :: real

record cb_bench_stats_t =
  min_sec :: real
  max_sec :: real
  mean_sec :: real
  stddev_sec :: real
  stats_iterations :: int

record 's cb_run_report_t =
  label :: string
  report_sum :: "'s"
  parallelism :: int
  stats :: cb_bench_stats_t

record cb_config_t =
  array_length :: int
  num_processes :: int
  num_threads :: int
  seed :: "32 word"
  iterations :: int
  verbose :: bool

record 's cb_thread_shared_t =
  shared_sum :: "'s"
  earliest_start :: real
  latest_end :: real

text \<open>
  Reading \<open>a[i]\<close>: outside the array the C program has no defined behaviour, which
  the model reports as \<open>None\<close>.
\<close>

definition array_read :: "'a list \<Rightarrow> int \<Rightarrow> 'a option" where
  "array_read a i = (if 0 \<le> i \<and> i < int (length a) then Some (a ! nat i) else None)"

section \<open>Work distribution (bench\_thread.c, bench\_process\_unix.c, bench\_process\_win.c)\<close>

text \<open>
  All three parallel coordinators distribute the array with the same loop:
  \<^verbatim>\<open>
    int base_len  = config->array_length / n;
    int remainder = config->array_length % n;
    int offset    = 0;
    for (int i = 0; i < n; i++) {
        int chunk = base_len + (i < remainder ? 1 : 0);
        ... start = offset; length = chunk; ...
        offset += chunk;
    }
  \<close>
  C's \<open>/\<close> and \<open>%\<close> truncate towards zero (\<open>sdiv\<close>, \<open>smod\<close>); a division by
  zero has no defined result, which the model reports as \<open>None\<close>.
\<close>

record work_slice =
  ws_start :: int
  ws_length :: int

function slice_loop :: "int \<Rightarrow> int \<Rightarrow> int \<Rightarrow> int \<Rightarrow> int \<Rightarrow> work_slice list" where
  "slice_loop base_len remainder n i offset =
     (if i < n then
        (let chunk = base_len + (if i < remainder then 1 else 0)
         in \<lparr>ws_start = offset, ws_length = chunk\<rparr>
              # slice_loop base_len remainder n (i + 1) (offset + chunk))
      else [])"
  by pat_completeness auto
termination
  by (relation "measure (\<lambda>(b, r, n, i, off). nat (n - i))") auto

declare slice_loop.simps [simp del]

definition partition_slices :: "int \<Rightarrow> int \<Rightarrow> work_slice list option" where
  "partition_slices alen n =
     (if n = 0 then None
      else Some (slice_loop (alen sdiv n) (alen smod n) n 0 0))"

definition slice_range :: "work_slice \<Rightarrow> int set" where
  "slice_range s = {ws_start s ..< ws_start s + ws_length s}"

text \<open>Closed form of the \<open>k\<close>-th slice, used to reason about the loop.\<close>

definition slice_at :: "int \<Rightarrow> int \<Rightarrow> int \<Rightarrow> work_slice" where
  "slice_at b r k = \<lparr>ws_start = k * b + min k r, ws_length = b + (if k < r then 1 else 0)\<rparr>"


section \<open>Compute kernel (worker.c)\<close>

text \<open>
  \<^verbatim>\<open>
    for (int i = start; i < start + length; i++) { result.sum += dataset[i]; }
  \<close>
\<close>

function array_sum_loop :: "int list \<Rightarrow> int \<Rightarrow> int \<Rightarrow> 'l::len word \<Rightarrow> 'l word option" where
  "array_sum_loop dataset i stop acc =
     (if i < stop then
        (case array_read dataset i of
           None \<Rightarrow> None
         | Some v \<Rightarrow> array_sum_loop dataset (i + 1) stop (acc + word_of_int v))
      else Some acc)"
  by pat_completeness auto
termination
  by (relation "measure (\<lambda>(d, i, stop, acc). nat (stop - i))") auto

declare array_sum_loop.simps [simp del]

text \<open>
  \<open>clk\<close> holds the two readings of \<open>cb_time_now\<close> taken before and after the loop.
\<close>

definition cb_array_sum ::
  "(real \<Rightarrow> real) \<Rightarrow> real \<times> real \<Rightarrow> int list \<Rightarrow> int \<Rightarrow> int \<Rightarrow> ('l::len) word cb_result_t option" where
  "cb_array_sum rnd clk dataset start len =
     (case array_sum_loop dataset start (start + len) 0 of
        None \<Rightarrow> None
      | Some s \<Rightarrow> Some \<lparr>result_sum = s, elapsed_sec = rnd (snd clk - fst clk)\<rparr>)"

text \<open>
  The critical section of \<open>cb_array_sum_thread_fn\<close>, between \<open>cb_mutex_lock\<close> and
  \<open>cb_mutex_unlock\<close>: one atomic update of the shared accumulator.
\<close>

definition critical_section ::
  "('l::len) word \<Rightarrow> real \<Rightarrow> real \<Rightarrow> 'l word cb_thread_shared_t \<Rightarrow> 'l word cb_thread_shared_t" where
  "critical_section partial_sum t_start t_end shared =
     (let s1 = shared\<lparr>shared_sum := shared_sum shared + partial_sum\<rparr>;
          s2 = (if earliest_start s1 < 0 \<or> t_start < earliest_start s1
                then s1\<lparr>earliest_start := t_start\<rparr> else s1);
          s3 = (if t_end > latest_end s2 then s2\<lparr>latest_end := t_end\<rparr> else s2)
      in s3)"

text \<open>
  The thread entry point: the partial sum is computed without the lock, then the
  critical section runs. The thread's parameters are its slice; \<open>clk\<close> are its two
  clock readings \<open>(t_start, t_end)\<close>.
\<close>

definition cb_array_sum_thread_fn ::
  "int list \<Rightarrow> work_slice \<Rightarrow> real \<times> real \<Rightarrow> ('l::len) word cb_thread_shared_t
     \<Rightarrow> 'l word cb_thread_shared_t option" where
  "cb_array_sum_thread_fn dataset p clk shared =
     (case array_sum_loop dataset (ws_start p) (ws_start p + ws_length p) 0 of
        None \<Rightarrow> None
      | Some partial_sum \<Rightarrow> Some (critical_section partial_sum (fst clk) (snd clk) shared))"

text \<open>The accumulator as \<open>cb_bench_thread_run\<close> resets it at the start of an iteration.\<close>

definition shared_init :: "('l::len) word cb_thread_shared_t" where
  "shared_init = \<lparr>shared_sum = 0, earliest_start = -1, latest_end = 0\<rparr>"

section \<open>Statistics engine (stats.c)\<close>

function first_pass ::
  "(real \<Rightarrow> real) \<Rightarrow> real list \<Rightarrow> int \<Rightarrow> int \<Rightarrow> real \<Rightarrow> real \<Rightarrow> real \<Rightarrow> (real \<times> real \<times> real) option" where
  "first_pass rnd times_arr count i sum_acc min_val max_val =
     (if i < count then
        (case array_read times_arr i of
           None \<Rightarrow> None
         | Some t \<Rightarrow>
             first_pass rnd times_arr count (i + 1) (rnd (sum_acc + t))
               (if t < min_val then t else min_val)
               (if t > max_val then t else max_val))
      else Some (sum_acc, min_val, max_val))"
  by pat_completeness auto
termination
  by (relation "measure (\<lambda>(rnd, ts, count, i, s, mn, mx). nat (count - i))") auto

declare first_pass.simps [simp del]

function second_pass ::
  "(real \<Rightarrow> real) \<Rightarrow> real list \<Rightarrow> int \<Rightarrow> real \<Rightarrow> int \<Rightarrow> real \<Rightarrow> real option" where
  "second_pass rnd times_arr count mean i variance_sum =
     (if i < count then
        (case array_read times_arr i of
           None \<Rightarrow> None
         | Some t \<Rightarrow>
             (let diff = rnd (t - mean)
              in second_pass rnd times_arr count mean (i + 1) (rnd (variance_sum + rnd (diff * diff)))))
      else Some variance_sum)"
  by pat_completeness auto
termination
  by (relation "measure (\<lambda>(rnd, ts, count, mean, i, v). nat (count - i))") auto

declare second_pass.simps [simp del]

text \<open>
  \<open>cb_stats_compute\<close> returns the error code together with the contents of
  \<open>*stats_out\<close> after the call.
\<close>

definition cb_stats_compute ::
  "(real \<Rightarrow> real) \<Rightarrow> real list option \<Rightarrow> int \<Rightarrow> cb_bench_stats_t option
     \<Rightarrow> (cb_error_t \<times> cb_bench_stats_t option) option" where
  "cb_stats_compute rnd times_arr count stats_out =
     (case (times_arr, stats_out) of
        (Some ts, Some out) \<Rightarrow>
          if count < 1 then Some (CB_ERR_ARGS, stats_out)
          else
            (case array_read ts 0 of
               None \<Rightarrow> None
             | Some t0 \<Rightarrow>
                 (case first_pass rnd ts count 0 0 t0 t0 of
                    None \<Rightarrow> None
                  | Some (sum_acc, min_val, max_val) \<Rightarrow>
                      (let mean = rnd (sum_acc / of_int count)
                       in case second_pass rnd ts count mean 0 0 of
                            None \<Rightarrow> None
                          | Some variance_sum \<Rightarrow>
                              (let stddev =
                                     (if count > 1
                                      then rnd (sqrt (rnd (variance_sum / of_int (count - 1))))
                                      else 0)
                               in Some (CB_OK,
                                    Some (out\<lparr>min_sec := min_val, max_sec := max_val,
                                               mean_sec := mean, stddev_sec := stddev,
                                               stats_iterations := count\<rparr>))))))
      | _ \<Rightarrow> Some (CB_ERR_ARGS, stats_out))"

section \<open>IEEE 754 binary64 rounding\<close>

text \<open>
  Round to nearest, ties to even, with a 53-bit significand: the rounding of the C
  \<open>double\<close> operations on the platforms the program targets. \<open>binary_exponent y\<close> is
  \<open>\<lfloor>log\<^sub>2 y\<rfloor>\<close> for positive \<open>y\<close>, kept within the exponent range of binary64 (below
  \<open>2\<^sup>-\<^sup>1\<^sup>0\<^sup>2\<^sup>2\<close> the spacing of doubles is constant). Overflow to infinity is not
  modelled.
\<close>

function exp_up :: "real \<Rightarrow> int \<Rightarrow> int" where
  "exp_up y e = (if 2 \<le> y \<and> e < 1024 then exp_up (y / 2) (e + 1) else e)"
  by pat_completeness auto
termination
  by (relation "measure (\<lambda>(y, e). nat (1024 - e))") auto

function exp_down :: "real \<Rightarrow> int \<Rightarrow> int" where
  "exp_down y e = (if y < 1 \<and> - 1022 < e then exp_down (2 * y) (e - 1) else e)"
  by pat_completeness auto
termination
  by (relation "measure (\<lambda>(y, e). nat (e + 1022))") auto

declare exp_up.simps [simp del] exp_down.simps [simp del]

definition binary_exponent :: "real \<Rightarrow> int" where
  "binary_exponent y = (if 1 \<le> y then exp_up y 0 else exp_down y 0)"

definition round_half_even :: "real \<Rightarrow> int" where
  "round_half_even q =
     (let f = \<lfloor>q\<rfloor>; d = q - of_int f
      in if d < 1 / 2 then f else if 1 / 2 < d then f + 1 else if even f then f else f + 1)"

definition rnd64 :: "real \<Rightarrow> real" where
  "rnd64 x =
     (if x = 0 then 0
      else (let u = 2 powi (binary_exponent \<bar>x\<bar> - 52)
            in sgn x * of_int (round_half_even (\<bar>x\<bar> / u)) * u))"

text \<open>Concrete values used in examples: an empty statistics record and the double nearest to 0.1.\<close>

definition stats_zero :: cb_bench_stats_t where
  "stats_zero = \<lparr>min_sec = 0, max_sec = 0, mean_sec = 0, stddev_sec = 0, stats_iterations = 0\<rparr>"

definition binary64_tenth :: real where
  "binary64_tenth = 3602879701896397 / 36028797018963968"

section \<open>The shared accumulator under a sequence of locked updates\<close>

text \<open>
  The mutex makes the critical sections of the threads of one iteration run one after
  another, in the order in which the threads acquire the lock. A thread contributes its
  partial sum and its two clock readings \<open>(partial_sum, t_start, t_end)\<close>;
  \<open>apply_updates\<close> runs the critical sections of a list of threads in list order.
\<close>

fun apply_updates ::
  "(('l::len) word \<times> real \<times> real) list \<Rightarrow> 'l word cb_thread_shared_t \<Rightarrow> 'l word cb_thread_shared_t" where
  "apply_updates [] shared = shared"
| "apply_updates ((partial_sum, t_start, t_end) # rs) shared =
     apply_updates rs (critical_section partial_sum t_start t_end shared)"

definition example_results :: "(64 word \<times> real \<times> real) list" where
  "example_results = [(5, 2, 7), (6, 1, 4)]"

section \<open>Pipe reads (platform\_unix.c, platform\_win.c)\<close>

text \<open>
  What the operating system answers to one read request on the read end of the pipe:
  \<open>Available k\<close>: \<open>k\<close> bytes are in the pipe, and the request returns as many of them as
  were asked for; \<open>EndOfFile\<close>: the pipe is empty and its write end closed;
  \<open>Interrupted\<close>: the call was interrupted by a signal (\<open>errno = EINTR\<close>);
  \<open>ReadError\<close>: any other failure. The list of answers given to \<open>cb_pipe_read\<close>
  describes the successive requests; when the list is used up before the function has
  decided, the function is still blocked in a read and has not returned (\<open>None\<close>).
  The second component of a result counts the bytes consumed from the pipe.
\<close>

datatype read_event = Available nat | EndOfFile | Interrupted | ReadError

text \<open>POSIX \<open>read(fd, ptr, count)\<close>: the number of bytes read, or a failure that tells
  whether \<open>errno\<close> is \<open>EINTR\<close>.\<close>

datatype sys_read_result = Bytes nat | Failed bool

definition sys_read :: "read_event \<Rightarrow> nat \<Rightarrow> sys_read_result" where
  "sys_read ev count =
     (case ev of
        Available k \<Rightarrow> Bytes (min k count)
      | EndOfFile \<Rightarrow> Bytes 0
      | Interrupted \<Rightarrow> Failed True
      | ReadError \<Rightarrow> Failed False)"

fun pipe_read_loop :: "read_event list \<Rightarrow> nat \<Rightarrow> nat \<Rightarrow> (cb_error_t \<times> nat) option" where
  "pipe_read_loop evs remaining consumed =
     (if remaining > 0 then
        (case evs of
           [] \<Rightarrow> None
         | ev # evs' \<Rightarrow>
             (case sys_read ev remaining of
                Failed eintr \<Rightarrow>
                  if eintr then pipe_read_loop evs' remaining consumed
                  else Some (CB_ERR_PIPE, consumed)
              | Bytes n \<Rightarrow>
                  if n = 0 then Some (CB_ERR_PIPE, consumed)
                  else pipe_read_loop evs' (remaining - n) (consumed + n)))
      else Some (CB_OK, consumed))"

declare pipe_read_loop.simps [simp del]

definition cb_pipe_read :: "read_event list \<Rightarrow> nat \<Rightarrow> (cb_error_t \<times> nat) option" where
  "cb_pipe_read evs sz = pipe_read_loop evs sz 0"

text \<open>
  Win32 \<open>ReadFile\<close>: success flag and number of bytes read. Every failure returns
  \<open>FALSE\<close>, including the broken pipe that reports the end of the data; there is no
  retry.
\<close>

definition ReadFile :: "read_event \<Rightarrow> nat \<Rightarrow> bool \<times> nat" where
  "ReadFile ev to_read =
     (case ev of
        Available k \<Rightarrow> (True, min k to_read)
      | _ \<Rightarrow> (False, 0))"

fun win_pipe_read_loop :: "read_event list \<Rightarrow> nat \<Rightarrow> nat \<Rightarrow> (cb_error_t \<times> nat) option" where
  "win_pipe_read_loop evs remaining consumed =
     (if remaining > 0 then
        (case evs of
           [] \<Rightarrow> None
         | ev # evs' \<Rightarrow>
             (let to_read = (if remaining > 4294967295 then 4294967295 else remaining);
                  (ok, bytes_read) = ReadFile ev to_read
              in if \<not> ok then Some (CB_ERR_PIPE, consumed)
                 else if bytes_read = 0 then Some (CB_ERR_PIPE, consumed)
                 else win_pipe_read_loop evs' (remaining - bytes_read) (consumed + bytes_read)))
      else Some (CB_OK, consumed))"

declare win_pipe_read_loop.simps [simp del]

definition cb_pipe_read_win :: "read_event list \<Rightarrow> nat \<Rightarrow> (cb_error_t \<times> nat) option" where
  "cb_pipe_read_win evs sz = win_pipe_read_loop evs sz 0"

text \<open>
  Bytes delivered by a run of answers, and the runs that hold no end of file and no error:
  on Unix data and interruptions, on Windows data only (one \<open>ReadFile\<close> reports its
  byte count in a 32-bit \<open>DWORD\<close>).
\<close>

fun delivered :: "read_event list \<Rightarrow> nat" where
  "delivered [] = 0"
| "delivered (Available k # evs) = k + delivered evs"
| "delivered (_ # evs) = delivered evs"

fun data_or_retry :: "read_event list \<Rightarrow> bool" where
  "data_or_retry [] = True"
| "data_or_retry (Available k # evs) = (0 < k \<and> data_or_retry evs)"
| "data_or_retry (Interrupted # evs) = data_or_retry evs"
| "data_or_retry (_ # evs) = False"

fun data_only :: "read_event list \<Rightarrow> bool" where
  "data_only [] = True"
| "data_only (Available k # evs) = (0 < k \<and> k \<le> 4294967295 \<and> data_only evs)"
| "data_only (_ # evs) = False"

fun channel_failure :: "read_event \<Rightarrow> bool" where
  "channel_failure EndOfFile = True"
| "channel_failure ReadError = True"
| "channel_failure _ = False"

section \<open>Dataset generation (dataset.c)\<close>

text \<open>
  The C library's generator is a parameter: \<open>srand_fn\<close> maps a seed to the state of
  the generator, \<open>rand_fn\<close> yields the next number and the next state. The
  environment supplies the value of \<open>time(NULL)\<close> and whether \<open>malloc\<close> succeeds.
  \<open>cb_dataset_create\<close> returns the error code, the contents of \<open>*config\<close> and the
  contents of \<open>*data_out\<close> after the call.
\<close>

record 'st libc_prng =
  srand_fn :: "32 word \<Rightarrow> 'st"
  rand_fn :: "'st \<Rightarrow> int \<times> 'st"

record dataset_env =
  time_null :: int
  malloc_ok :: bool

function fill_loop :: "('st \<Rightarrow> int \<times> 'st) \<Rightarrow> 'st \<Rightarrow> int \<Rightarrow> int \<Rightarrow> int list \<Rightarrow> int list" where
  "fill_loop rand st i n data =
     (if i < n then
        (case rand st of (r, st') \<Rightarrow> fill_loop rand st' (i + 1) n (data @ [r smod 100 + 1]))
      else data)"
  by pat_completeness auto
termination
  by (relation "measure (\<lambda>(rand, st, i, n, data). nat (n - i))") auto

declare fill_loop.simps [simp del]

definition cb_dataset_create ::
  "'st libc_prng \<Rightarrow> dataset_env \<Rightarrow> cb_config_t option \<Rightarrow> int list option option \<Rightarrow> bool
     \<Rightarrow> cb_error_t \<times> cb_config_t option \<times> int list option option" where
  "cb_dataset_create prng env config data_out verbose_flag =
     (case (config, data_out) of
        (Some cfg, Some _) \<Rightarrow>
          (let cfg1 =
                 (if seed cfg = 0
                  then cfg\<lparr>seed := word_of_int
                         (fst (rand_fn prng (srand_fn prng (word_of_int (time_null env)))))\<rparr>
                  else cfg);
               st = srand_fn prng (seed cfg1)
           in if \<not> malloc_ok env then (CB_ERR_ALLOC, Some cfg1, Some None)
              else (CB_OK, Some cfg1,
                    Some (Some (fill_loop (rand_fn prng) st 0 (array_length cfg1) []))))
      | _ \<Rightarrow> (CB_ERR_ARGS, config, data_out))"

text \<open>A concrete generator for examples: the linear congruential generator of the C
  standard's sample implementation of \<open>rand\<close>.\<close>

definition lcg :: "int libc_prng" where
  "lcg = \<lparr>srand_fn = uint,
          rand_fn = (\<lambda>st. (let st' = (st * 1103515245 + 12345) mod 4294967296
                           in ((st' div 65536) mod 32768, st')))\<rparr>"

definition example_config :: cb_config_t where
  "example_config = \<lparr>array_length = 4, num_processes = 2, num_threads = 3, seed = 314159,
                      iterations = 5, verbose = False\<rparr>"

section \<open>Input layer (input.c, main.c)\<close>

text \<open>
  The C library's number parsers are parameters of the model. \<open>strtol\<close> and
  \<open>strtoul\<close> (base 10) yield the converted value, the number of characters they
  consumed (\<open>endptr - nptr\<close>) and whether they set \<open>errno\<close> to \<open>ERANGE\<close>.
  Standard input is the list of buffers that successive calls of
  \<open>fgets(buf, 256, stdin)\<close> return; the empty list is the end of the input.
\<close>

record strtol_result =
  sl_value :: int
  sl_consumed :: nat
  sl_erange :: bool

record libc_parse =
  strtol_fn :: "string \<Rightarrow> strtol_result"
  strtoul_fn :: "string \<Rightarrow> strtol_result"
  atoi_fn :: "string \<Rightarrow> int"

record cb_worker_args_t =
  worker_id :: int
  shm_name :: string
  array_size :: int
  num_workers :: int
  worker_start :: int
  worker_length :: int

text \<open>
  The C string left in \<open>buf\<close> after the trailing newline has been stripped
  (\<open>strlen\<close> stops at the first NUL byte).
\<close>

definition strip_newline :: "string \<Rightarrow> string" where
  "strip_newline raw =
     (let s = takeWhile (\<lambda>c. c \<noteq> CHR 0x00) raw
      in if s \<noteq> [] \<and> last s = CHR 0x0A then butlast s else s)"

text \<open>
  \<open>read_long\<close>, \<open>read_ulong\<close> and \<open>read_yes_no\<close> return \<open>Inl CB_ERR_INPUT\<close> at
  the end of the input and \<open>Inr v\<close> when they return \<open>CB_OK\<close> with \<open>*out = v\<close>,
  together with the input that is left.
\<close>

fun read_long :: "libc_parse \<Rightarrow> int \<Rightarrow> int \<Rightarrow> string list \<Rightarrow> (cb_error_t + int) \<times> string list" where
  "read_long libc min_val max_val [] = (Inl CB_ERR_INPUT, [])"
| "read_long libc min_val max_val (raw # rest) =
     (let buf = strip_newline raw; r = strtol_fn libc buf
      in if sl_consumed r = 0 then read_long libc min_val max_val rest
         else if sl_consumed r < length buf then read_long libc min_val max_val rest
         else if sl_erange r then read_long libc min_val max_val rest
         else if sl_value r < min_val \<or> sl_value r > max_val then read_long libc min_val max_val rest
         else (Inr (sl_value r), rest))"

fun read_ulong :: "libc_parse \<Rightarrow> int \<Rightarrow> int \<Rightarrow> string list \<Rightarrow> (cb_error_t + int) \<times> string list" where
  "read_ulong libc min_val max_val [] = (Inl CB_ERR_INPUT, [])"
| "read_ulong libc min_val max_val (raw # rest) =
     (let buf = strip_newline raw
      in if take 1 buf = ''-'' then read_ulong libc min_val max_val rest
         else
           (let r = strtoul_fn libc buf
            in if sl_consumed r = 0 then read_ulong libc min_val max_val rest
               else if sl_consumed r < length buf then read_ulong libc min_val max_val rest
               else if sl_erange r then read_ulong libc min_val max_val rest
               else if sl_value r < min_val \<or> sl_value r > max_val
                    then read_ulong libc min_val max_val rest
               else (Inr (sl_value r), rest)))"

fun read_yes_no :: "string list \<Rightarrow> (cb_error_t + bool) \<times> string list" where
  "read_yes_no [] = (Inl CB_ERR_INPUT, [])"
| "read_yes_no (buf # rest) =
     (if take 1 buf = ''y'' \<or> take 1 buf = ''Y'' then (Inr True, rest)
      else if take 1 buf = ''n'' \<or> take 1 buf = ''N'' then (Inr False, rest)
      else read_yes_no rest)"

text \<open>
  The argument loop of \<open>cb_parse_args\<close>, on the arguments from \<open>argv[i]\<close> on. It
  returns the error code with the contents of \<open>*config\<close>, \<open>*is_worker\<close> and
  \<open>*worker_args\<close>.
\<close>

function parse_loop ::
  "libc_parse \<Rightarrow> string list \<Rightarrow> cb_config_t \<Rightarrow> bool \<Rightarrow> cb_worker_args_t
     \<Rightarrow> cb_error_t \<times> cb_config_t \<times> bool \<times> cb_worker_args_t" where
  "parse_loop libc [] config is_worker wa = (CB_OK, config, is_worker, wa)"
| "parse_loop libc (a # args) config is_worker wa =
     (if a = ''--help'' then (CB_ERR_ARGS, config, is_worker, wa)
      else if a = ''--verbose'' then parse_loop libc args (config\<lparr>verbose := True\<rparr>) is_worker wa
      else if a = ''--iterations'' then
        (case args of
           [] \<Rightarrow> (CB_ERR_ARGS, config, is_worker, wa)
         | v # args' \<Rightarrow>
             (let r = strtol_fn libc v
              in if sl_consumed r = 0 \<or> sl_consumed r < length v \<or> sl_erange r
                    \<or> sl_value r < 1 \<or> sl_value r > 1000
                 then (CB_ERR_ARGS, config, is_worker, wa)
                 else parse_loop libc args' (config\<lparr>iterations := sl_value r\<rparr>) is_worker wa))
      else if a = ''--worker'' then
        (if length args < 6 then (CB_ERR_ARGS, config, is_worker, wa)
         else parse_loop libc (drop 6 args) config True
                \<lparr>worker_id = atoi_fn libc (args ! 0),
                 shm_name = take 63 (args ! 1),
                 array_size = atoi_fn libc (args ! 2),
                 num_workers = atoi_fn libc (args ! 3),
                 worker_start = atoi_fn libc (args ! 4),
                 worker_length = atoi_fn libc (args ! 5)\<rparr>)
      else (CB_ERR_ARGS, config, is_worker, wa))"
  by pat_completeness auto
termination
  by (relation "measure (\<lambda>(libc, args, config, is_worker, wa). length args)") auto

declare parse_loop.simps [simp del]

definition config_defaults :: cb_config_t where
  "config_defaults = \<lparr>array_length = 0, num_processes = 0, num_threads = 0, seed = 0,
                       iterations = 5, verbose = False\<rparr>"

definition worker_args_zero :: cb_worker_args_t where
  "worker_args_zero = \<lparr>worker_id = 0, shm_name = [], array_size = 0, num_workers = 0,
                        worker_start = 0, worker_length = 0\<rparr>"

definition cb_parse_args ::
  "libc_parse \<Rightarrow> string list \<Rightarrow> cb_config_t option \<Rightarrow> bool option \<Rightarrow> cb_worker_args_t option
     \<Rightarrow> cb_error_t \<times> cb_config_t option \<times> bool option \<times> cb_worker_args_t option" where
  "cb_parse_args libc argv config is_worker worker_args =
     (if config = None \<or> is_worker = None \<or> worker_args = None
      then (CB_ERR_ARGS, config, is_worker, worker_args)
      else (case parse_loop libc (drop 1 argv) config_defaults False worker_args_zero of
              (err, c, w, wa) \<Rightarrow> (err, Some c, Some w, Some wa)))"

text \<open>
  \<open>cb_input_interactive\<close> returns the error code, the contents of \<open>*config\<close> and
  the input that is left. \<open>INT_MAX\<close> is 2147483647, \<open>UINT_MAX\<close> 4294967295.
\<close>

definition cb_input_interactive ::
  "libc_parse \<Rightarrow> cb_config_t option \<Rightarrow> string list \<Rightarrow> cb_error_t \<times> cb_config_t option \<times> string list" where
  "cb_input_interactive libc config inp =
     (case config of
        None \<Rightarrow> (CB_ERR_ARGS, config, inp)
      | Some c0 \<Rightarrow>
          (case (if \<not> verbose c0 then read_yes_no inp else (Inr True, inp)) of
             (Inl err, inp1) \<Rightarrow> (err, Some c0, inp1)
           | (Inr v, inp1) \<Rightarrow>
               (let c1 = c0\<lparr>verbose := v\<rparr>
                in case read_long libc 1000 2147483647 inp1 of
                     (Inl err, inp2) \<Rightarrow> (err, Some c1, inp2)
                   | (Inr val, inp2) \<Rightarrow>
                       (let c2 = c1\<lparr>array_length := val\<rparr>
                        in case read_long libc 1 256 inp2 of
                             (Inl err, inp3) \<Rightarrow> (err, Some c2, inp3)
                           | (Inr val, inp3) \<Rightarrow>
                               (let c3 = c2\<lparr>num_processes := val\<rparr>
                                in case read_long libc 1 256 inp3 of
                                     (Inl err, inp4) \<Rightarrow> (err, Some c3, inp4)
                                   | (Inr val, inp4) \<Rightarrow>
                                       (let c4 = c3\<lparr>num_threads := val\<rparr>
                                        in case read_ulong libc 0 4294967295 inp4 of
                                             (Inl err, inp5) \<Rightarrow> (err, Some c4, inp5)
                                           | (Inr seed_val, inp5) \<Rightarrow>
                                               (let c5 = c4\<lparr>seed := word_of_int seed_val\<rparr>
                                                in case read_long libc 1 100 inp5 of
                                                     (Inl err, inp6) \<Rightarrow> (err, Some c5, inp6)
                                                   | (Inr val, inp6) \<Rightarrow>
                                                       (CB_OK, Some (c5\<lparr>iterations := val\<rparr>),
                                                        inp6))))))))"

text \<open>
  Steps 1 to 3 of \<open>main\<close>: \<open>Inl code\<close> is an exit with that code before any benchmark
  runs, \<open>Inr config\<close> is the configuration with which dataset generation and the
  benchmarks start. On Windows a worker invocation is dispatched to the worker's entry
  point, whose exit code is the parameter \<open>worker_exit\<close>.
\<close>

definition main_input ::
  "libc_parse \<Rightarrow> bool \<Rightarrow> int \<Rightarrow> string list \<Rightarrow> string list \<Rightarrow> int + cb_config_t" where
  "main_input libc win32 worker_exit argv inp =
     (case cb_parse_args libc argv (Some config_defaults) (Some False) (Some worker_args_zero) of
        (err, Some config, Some is_worker, _) \<Rightarrow>
          if err \<noteq> CB_OK then Inl (if err = CB_ERR_ARGS then 0 else 1)
          else if is_worker then Inl (if win32 then worker_exit else 1)
          else
            (case cb_input_interactive libc (Some config) inp of
               (err, Some config', _) \<Rightarrow> if err \<noteq> CB_OK then Inl 1 else Inr config'
             | _ \<Rightarrow> Inl 1)
      | _ \<Rightarrow> Inl 1)"

text \<open>
  A small parser for examples: it converts the leading decimal digits of its argument
  (no sign, no white space, no overflow).
\<close>

fun digits_value :: "string \<Rightarrow> int \<Rightarrow> int \<times> nat" where
  "digits_value [] acc = (acc, 0)"
| "digits_value (c # s) acc =
     (if CHR ''0'' \<le> c \<and> c \<le> CHR ''9''
      then (case digits_value s (10 * acc + (int (of_char c) - 48)) of (v, k) \<Rightarrow> (v, Suc k))
      else (acc, 0))"

definition example_libc :: libc_parse where
  "example_libc =
     \<lparr>strtol_fn = (\<lambda>s. case digits_value s 0 of (v, k) \<Rightarrow>
                       \<lparr>sl_value = v, sl_consumed = k, sl_erange = False\<rparr>),
      strtoul_fn = (\<lambda>s. case digits_value s 0 of (v, k) \<Rightarrow>
                       \<lparr>sl_value = v, sl_consumed = k, sl_erange = False\<rparr>),
      atoi_fn = (\<lambda>s. fst (digits_value s 0))\<rparr>"

section \<open>Baseline coordinator (bench\_single.c)\<close>

text \<open>
  The coordinators take their three pointer arguments as options and return the error
  code together with the contents of \<open>*report\<close> after the call; \<open>None\<close> as a whole
  result means that the C program has no defined behaviour (a read outside the dataset,
  a division by zero) or does not return. What the platform does is supplied by an
  environment: whether the allocations succeed, what the clock reads, what each platform
  call returns; calls are addressed by the iteration and the worker index.
\<close>

record single_env =
  se_calloc_ok :: bool
  se_clock :: "nat \<Rightarrow> real \<times> real"

function single_loop ::
  "(real \<Rightarrow> real) \<Rightarrow> (nat \<Rightarrow> real \<times> real) \<Rightarrow> int list \<Rightarrow> cb_config_t \<Rightarrow> int
     \<Rightarrow> ('l::len) word \<Rightarrow> real list \<Rightarrow> ('l word \<times> real list) option" where
  "single_loop rnd clock dataset config iter verified_sum times_arr =
     (if iter < iterations config then
        (case cb_array_sum rnd (clock (nat iter)) dataset 0 (array_length config) of
           None \<Rightarrow> None
         | Some result \<Rightarrow>
             single_loop rnd clock dataset config (iter + 1)
               (if iter = 0 then result_sum result else verified_sum)
               (times_arr[nat iter := elapsed_sec result]))
      else Some (verified_sum, times_arr))"
  by pat_completeness auto
termination
  by (relation "measure (\<lambda>(rnd, clock, d, config, iter, v, t). nat (iterations config - iter))") auto

declare single_loop.simps [simp del]

text \<open>Filling in a report and computing its statistics, the common tail of the three
  coordinators.\<close>

definition finish_report ::
  "(real \<Rightarrow> real) \<Rightarrow> string \<Rightarrow> int \<Rightarrow> cb_config_t \<Rightarrow> 's cb_run_report_t \<Rightarrow> 's \<Rightarrow> real list
     \<Rightarrow> (cb_error_t \<times> 's cb_run_report_t option) option" where
  "finish_report rnd name n config report verified_sum times_arr =
     (let r1 = report\<lparr>label := name, report_sum := verified_sum, parallelism := n\<rparr>
      in case cb_stats_compute rnd (Some times_arr) (iterations config) (Some (stats r1)) of
           Some (err, Some st) \<Rightarrow> Some (err, Some (r1\<lparr>stats := st\<rparr>))
         | _ \<Rightarrow> None)"

definition cb_bench_single_run ::
  "(real \<Rightarrow> real) \<Rightarrow> single_env \<Rightarrow> int list option \<Rightarrow> cb_config_t option
     \<Rightarrow> ('l::len) word cb_run_report_t option
     \<Rightarrow> (cb_error_t \<times> 'l word cb_run_report_t option) option" where
  "cb_bench_single_run rnd env dataset config report =
     (case (dataset, config, report) of
        (Some ds, Some cfg, Some rep) \<Rightarrow>
          if \<not> se_calloc_ok env then Some (CB_ERR_ALLOC, report)
          else
            (case single_loop rnd (se_clock env) ds cfg 0 0 (replicate (nat (iterations cfg)) 0) of
               None \<Rightarrow> None
             | Some (verified_sum, times_arr) \<Rightarrow>
                 finish_report rnd ''single'' 1 cfg rep verified_sum times_arr)
      | _ \<Rightarrow> Some (CB_ERR_ARGS, report))"

section \<open>Thread coordinator (bench\_thread.c)\<close>

text \<open>
  \<open>te_lock_order\<close> ranks the threads of an iteration by the moment at which they
  acquire the mutex: the critical sections of the created threads run in that order.
\<close>

record thread_env =
  te_calloc_ok :: bool
  te_mutex_init :: cb_error_t
  te_create :: "nat \<Rightarrow> nat \<Rightarrow> cb_error_t"
  te_join :: "nat \<Rightarrow> nat \<Rightarrow> cb_error_t"
  te_clock :: "nat \<Rightarrow> nat \<Rightarrow> real \<times> real"
  te_lock_order :: "nat \<Rightarrow> nat \<Rightarrow> nat"

fun create_loop :: "(nat \<Rightarrow> cb_error_t) \<Rightarrow> nat list \<Rightarrow> nat \<Rightarrow> cb_error_t \<times> nat" where
  "create_loop create [] created = (CB_OK, created)"
| "create_loop create (i # is) created =
     (let err = create i
      in if err \<noteq> CB_OK then (err, created) else create_loop create is (created + 1))"

fun join_loop :: "(nat \<Rightarrow> cb_error_t) \<Rightarrow> nat list \<Rightarrow> cb_error_t \<Rightarrow> cb_error_t" where
  "join_loop join [] err = err"
| "join_loop join (i # is) err =
     (let join_err = join i
      in join_loop join is (if join_err \<noteq> CB_OK \<and> err = CB_OK then join_err else err))"

fun run_threads ::
  "int list \<Rightarrow> work_slice list \<Rightarrow> (nat \<Rightarrow> real \<times> real) \<Rightarrow> nat list
     \<Rightarrow> ('l::len) word cb_thread_shared_t \<Rightarrow> 'l word cb_thread_shared_t option" where
  "run_threads dataset params clock [] shared = Some shared"
| "run_threads dataset params clock (i # order) shared =
     (case array_read params (int i) of
        None \<Rightarrow> None
      | Some p \<Rightarrow>
          (case cb_array_sum_thread_fn dataset p (clock i) shared of
             None \<Rightarrow> None
           | Some shared' \<Rightarrow> run_threads dataset params clock order shared'))"

text \<open>One iteration: \<open>Inl err\<close> is the jump to \<open>cleanup\<close> with that error,
  \<open>Inr (sum, elapsed)\<close> the accumulated sum and the recorded time.\<close>

definition thread_iteration ::
  "(real \<Rightarrow> real) \<Rightarrow> thread_env \<Rightarrow> int list \<Rightarrow> cb_config_t \<Rightarrow> nat
     \<Rightarrow> (cb_error_t + ('l::len) word \<times> real) option" where
  "thread_iteration rnd env dataset config iter =
     (let n = num_threads config
      in case partition_slices (array_length config) n of
           None \<Rightarrow> None
         | Some params \<Rightarrow>
             (case create_loop (te_create env iter) [0..<nat n] 0 of
                (err, created) \<Rightarrow>
                  (case run_threads dataset params (te_clock env iter)
                          (sort_key (te_lock_order env iter) [0..<created]) shared_init of
                     None \<Rightarrow> None
                   | Some shared \<Rightarrow>
                       if err \<noteq> CB_OK then Some (Inl err)
                       else
                         (let err = join_loop (te_join env iter) [0..<nat n] CB_OK
                          in if err \<noteq> CB_OK then Some (Inl err)
                             else Some (Inr (shared_sum shared,
                                             rnd (latest_end shared - earliest_start shared)))))))"

function thread_loop ::
  "(real \<Rightarrow> real) \<Rightarrow> thread_env \<Rightarrow> int list \<Rightarrow> cb_config_t \<Rightarrow> int
     \<Rightarrow> ('l::len) word \<Rightarrow> real list \<Rightarrow> (cb_error_t + 'l word \<times> real list) option" where
  "thread_loop rnd env dataset config iter verified_sum times_arr =
     (if iter < iterations config then
        (case thread_iteration rnd env dataset config (nat iter) of
           None \<Rightarrow> None
         | Some (Inl err) \<Rightarrow> Some (Inl err)
         | Some (Inr (s, elapsed)) \<Rightarrow>
             thread_loop rnd env dataset config (iter + 1)
               (if iter = 0 then s else verified_sum)
               (times_arr[nat iter := elapsed]))
      else Some (Inr (verified_sum, times_arr)))"
  by pat_completeness auto
termination
  by (relation "measure (\<lambda>(rnd, env, d, config, iter, v, t). nat (iterations config - iter))") auto

declare thread_loop.simps [simp del]

definition cb_bench_thread_run ::
  "(real \<Rightarrow> real) \<Rightarrow> thread_env \<Rightarrow> int list option \<Rightarrow> cb_config_t option
     \<Rightarrow> ('l::len) word cb_run_report_t option
     \<Rightarrow> (cb_error_t \<times> 'l word cb_run_report_t option) option" where
  "cb_bench_thread_run rnd env dataset config report =
     (case (dataset, config, report) of
        (Some ds, Some cfg, Some rep) \<Rightarrow>
          if \<not> te_calloc_ok env then Some (CB_ERR_ALLOC, report)
          else if te_mutex_init env \<noteq> CB_OK then Some (te_mutex_init env, report)
          else
            (case thread_loop rnd env ds cfg 0 0 (replicate (nat (iterations cfg)) 0) of
               None \<Rightarrow> None
             | Some (Inl err) \<Rightarrow> Some (err, report)
             | Some (Inr (verified_sum, times_arr)) \<Rightarrow>
                 finish_report rnd ''thread'' (num_threads cfg) cfg rep verified_sum times_arr)
      | _ \<Rightarrow> Some (CB_ERR_ARGS, report))"

section \<open>Process coordinator, Unix (bench\_process\_unix.c)\<close>

text \<open>
  The parent's platform calls are recorded in a trace, each with its iteration and
  worker index. \<open>EvSpawn\<close> is a successful \<open>cb_process_spawn\<close> (a child now exists),
  \<open>EvPipeCreate\<close> and \<open>EvPipeRead\<close> a successful pipe creation and read; the
  \<open>Failed\<close> events are the same calls returning an error. The results of the close,
  wait-in-teardown and kill calls are not looked at by the code.
\<close>

datatype proc_event =
    EvPipeCreate nat nat | EvPipeCreateFailed nat nat
  | EvSpawn nat nat | EvSpawnFailed nat nat
  | EvCloseRead nat nat | EvCloseWrite nat nat
  | EvPipeRead nat nat | EvPipeReadFailed nat nat
  | EvWait nat nat | EvKill nat nat

fun event_iter :: "proc_event \<Rightarrow> nat" where
  "event_iter (EvPipeCreate it i) = it"
| "event_iter (EvPipeCreateFailed it i) = it"
| "event_iter (EvSpawn it i) = it"
| "event_iter (EvSpawnFailed it i) = it"
| "event_iter (EvCloseRead it i) = it"
| "event_iter (EvCloseWrite it i) = it"
| "event_iter (EvPipeRead it i) = it"
| "event_iter (EvPipeReadFailed it i) = it"
| "event_iter (EvWait it i) = it"
| "event_iter (EvKill it i) = it"

record process_env =
  pe_calloc_ok :: bool
  pe_clock :: "nat \<Rightarrow> real \<times> real"
  pe_pipe_create :: "nat \<Rightarrow> nat \<Rightarrow> cb_error_t"
  pe_spawn :: "nat \<Rightarrow> nat \<Rightarrow> cb_error_t"
  pe_pipe :: "nat \<Rightarrow> nat \<Rightarrow> read_event list"
  pe_wait :: "nat \<Rightarrow> nat \<Rightarrow> cb_error_t \<times> int"
  pe_child_clock :: "nat \<Rightarrow> nat \<Rightarrow> real \<times> real"

text \<open>\<open>sizeof(cb_result_t)\<close>: a \<open>long\<close> (padded to eight bytes) and a \<open>double\<close>.\<close>

definition sizeof_cb_result_t :: nat where
  "sizeof_cb_result_t = 16"

text \<open>
  The spawn loop, on the worker indices still to do. It returns the error, the number
  of children spawned, the slices handed out and the trace.
\<close>

fun spawn_loop ::
  "(nat \<Rightarrow> cb_error_t) \<Rightarrow> (nat \<Rightarrow> cb_error_t) \<Rightarrow> nat \<Rightarrow> int \<Rightarrow> int \<Rightarrow> nat list \<Rightarrow> int \<Rightarrow> nat
     \<Rightarrow> work_slice list \<Rightarrow> proc_event list
     \<Rightarrow> cb_error_t \<times> nat \<times> work_slice list \<times> proc_event list" where
  "spawn_loop pipe_create spawn it base_len remainder [] offset spawned work evs =
     (CB_OK, spawned, work, evs)"
| "spawn_loop pipe_create spawn it base_len remainder (i # is) offset spawned work evs =
     (let chunk = base_len + (if int i < remainder then 1 else 0);
          err = pipe_create i
      in if err \<noteq> CB_OK then (err, spawned, work, evs @ [EvPipeCreateFailed it i])
         else
           (let w = \<lparr>ws_start = offset, ws_length = chunk\<rparr>;
                err = spawn i
            in if err \<noteq> CB_OK
               then (err, spawned, work @ [w],
                     evs @ [EvPipeCreate it i, EvSpawnFailed it i, EvCloseRead it i, EvCloseWrite it i])
               else spawn_loop pipe_create spawn it base_len remainder is (offset + chunk)
                      (spawned + 1) (work @ [w])
                      (evs @ [EvPipeCreate it i, EvSpawn it i, EvCloseWrite it i])))"

text \<open>
  The read loop. \<open>child i\<close> is the record that child \<open>i\<close> wrote into its pipe: the
  result of \<open>cb_array_sum\<close> on its slice.
\<close>

fun read_loop ::
  "(nat \<Rightarrow> read_event list) \<Rightarrow> (nat \<Rightarrow> ('l::len) word cb_result_t option) \<Rightarrow> nat \<Rightarrow> nat list
     \<Rightarrow> 'l word \<Rightarrow> proc_event list \<Rightarrow> (cb_error_t \<times> 'l word \<times> proc_event list) option" where
  "read_loop pipe child it [] iter_sum evs = Some (CB_OK, iter_sum, evs)"
| "read_loop pipe child it (i # is) iter_sum evs =
     (case cb_pipe_read (pipe i) sizeof_cb_result_t of
        None \<Rightarrow> None
      | Some (err, consumed) \<Rightarrow>
          if err \<noteq> CB_OK then Some (err, iter_sum, evs @ [EvPipeReadFailed it i])
          else
            (case child i of
               None \<Rightarrow> None
             | Some child_result \<Rightarrow>
                 read_loop pipe child it is (iter_sum + result_sum child_result)
                   (evs @ [EvPipeRead it i, EvCloseRead it i])))"

fun wait_loop ::
  "(nat \<Rightarrow> cb_error_t \<times> int) \<Rightarrow> nat \<Rightarrow> nat list \<Rightarrow> cb_error_t \<Rightarrow> proc_event list
     \<Rightarrow> cb_error_t \<times> proc_event list" where
  "wait_loop wait it [] err evs = (err, evs)"
| "wait_loop wait it (i # is) err evs =
     (case wait i of
        (wait_err, status) \<Rightarrow>
          wait_loop wait it is (if wait_err \<noteq> CB_OK \<and> err = CB_OK then wait_err else err)
            (evs @ [EvWait it i]))"

text \<open>The \<open>cleanup_children\<close> block: kill and reap the children spawned so far.\<close>

definition cleanup_children :: "nat \<Rightarrow> nat \<Rightarrow> proc_event list" where
  "cleanup_children it spawned = concat (map (\<lambda>j. [EvKill it j, EvWait it j]) [0..<spawned])"

definition child_result ::
  "(real \<Rightarrow> real) \<Rightarrow> (nat \<Rightarrow> real \<times> real) \<Rightarrow> int list \<Rightarrow> work_slice list \<Rightarrow> nat
     \<Rightarrow> ('l::len) word cb_result_t option" where
  "child_result rnd clock dataset work i =
     (case array_read work (int i) of
        None \<Rightarrow> None
      | Some w \<Rightarrow> cb_array_sum rnd (clock i) dataset (ws_start w) (ws_length w))"

definition process_iteration ::
  "(real \<Rightarrow> real) \<Rightarrow> process_env \<Rightarrow> int list \<Rightarrow> cb_config_t \<Rightarrow> nat
     \<Rightarrow> ((cb_error_t + ('l::len) word \<times> real) \<times> proc_event list) option" where
  "process_iteration rnd env dataset config it =
     (let n = num_processes config
      in if n = 0 then None
         else
           (case spawn_loop (pe_pipe_create env it) (pe_spawn env it) it
                   (array_length config sdiv n) (array_length config smod n)
                   [0..<nat n] 0 0 [] [] of
              (err, spawned, work, evs) \<Rightarrow>
                if err \<noteq> CB_OK then Some (Inl err, evs @ cleanup_children it spawned)
                else
                  (case read_loop (pe_pipe env it)
                          (child_result rnd (pe_child_clock env it) dataset work) it
                          [0..<nat n] 0 evs of
                     None \<Rightarrow> None
                   | Some (err, iter_sum, evs) \<Rightarrow>
                       if err \<noteq> CB_OK then Some (Inl err, evs @ cleanup_children it spawned)
                       else
                         (case wait_loop (pe_wait env it) it [0..<spawned] CB_OK evs of
                            (err, evs) \<Rightarrow>
                              if err \<noteq> CB_OK then Some (Inl err, evs)
                              else Some (Inr (iter_sum,
                                              rnd (snd (pe_clock env it) - fst (pe_clock env it))),
                                         evs)))))"

function process_loop ::
  "(real \<Rightarrow> real) \<Rightarrow> process_env \<Rightarrow> int list \<Rightarrow> cb_config_t \<Rightarrow> int
     \<Rightarrow> ('l::len) word \<Rightarrow> real list \<Rightarrow> proc_event list
     \<Rightarrow> ((cb_error_t + 'l word \<times> real list) \<times> proc_event list) option" where
  "process_loop rnd env dataset config iter verified_sum times_arr trace =
     (if iter < iterations config then
        (case process_iteration rnd env dataset config (nat iter) of
           None \<Rightarrow> None
         | Some (Inl err, evs) \<Rightarrow> Some (Inl err, trace @ evs)
         | Some (Inr (iter_sum, elapsed), evs) \<Rightarrow>
             process_loop rnd env dataset config (iter + 1)
               (if iter = 0 then iter_sum else verified_sum)
               (times_arr[nat iter := elapsed]) (trace @ evs))
      else Some (Inr (verified_sum, times_arr), trace))"
  by pat_completeness auto
termination
  by (relation "measure (\<lambda>(rnd, env, d, config, iter, v, t, tr). nat (iterations config - iter))")
     auto

declare process_loop.simps [simp del]

text \<open>\<open>cb_bench_process_run\<close> returns the error code, the contents of \<open>*report\<close> and
  the trace of the platform calls made.\<close>

definition cb_bench_process_run ::
  "(real \<Rightarrow> real) \<Rightarrow> process_env \<Rightarrow> int list option \<Rightarrow> cb_config_t option
     \<Rightarrow> ('l::len) word cb_run_report_t option
     \<Rightarrow> (cb_error_t \<times> 'l word cb_run_report_t option \<times> proc_event list) option" where
  "cb_bench_process_run rnd env dataset config report =
     (case (dataset, config, report) of
        (Some ds, Some cfg, Some rep) \<Rightarrow>
          if \<not> pe_calloc_ok env then Some (CB_ERR_ALLOC, report, [])
          else
            (case process_loop rnd env ds cfg 0 0 (replicate (nat (iterations cfg)) 0) [] of
               None \<Rightarrow> None
             | Some (Inl err, trace) \<Rightarrow> Some (err, report, trace)
             | Some (Inr (verified_sum, times_arr), trace) \<Rightarrow>
                 (case finish_report rnd ''process'' (num_processes cfg) cfg rep verified_sum times_arr of
                    None \<Rightarrow> None
                  | Some (err, report') \<Rightarrow> Some (err, report', trace)))
      | _ \<Rightarrow> Some (CB_ERR_ARGS, report, []))"

text \<open>The children spawned in iteration \<open>it\<close> according to a trace, in spawn order.\<close>

fun spawned_in :: "nat \<Rightarrow> proc_event list \<Rightarrow> nat list" where
  "spawned_in it [] = []"
| "spawned_in it (EvSpawn it' i # evs) = (if it' = it then i # spawned_in it evs else spawned_in it evs)"
| "spawned_in it (_ # evs) = spawned_in it evs"


fun is_failure :: "proc_event \<Rightarrow> bool" where
  "is_failure (EvPipeCreateFailed it i) = True"
| "is_failure (EvSpawnFailed it i) = True"
| "is_failure (EvPipeReadFailed it i) = True"
| "is_failure _ = False"

text \<open>The worker index of a failed pipe creation or spawn.\<close>

fun spawn_phase_failure :: "proc_event \<Rightarrow> nat option" where
  "spawn_phase_failure (EvPipeCreateFailed it i) = Some i"
| "spawn_phase_failure (EvSpawnFailed it i) = Some i"
| "spawn_phase_failure _ = None"

section \<open>Example environments\<close>

text \<open>An empty report and environments in which every platform call succeeds, used to run the
  coordinators on concrete inputs.\<close>

definition report_zero :: "64 word cb_run_report_t" where
  "report_zero = \<lparr>label = [], report_sum = 0, parallelism = 0, stats = stats_zero\<rparr>"

definition example_single_env :: single_env where
  "example_single_env = \<lparr>se_calloc_ok = True, se_clock = (\<lambda>iter. (real iter, real iter + 1 / 2))\<rparr>"

definition example_thread_env :: thread_env where
  "example_thread_env =
     \<lparr>te_calloc_ok = True, te_mutex_init = CB_OK,
      te_create = (\<lambda>iter i. CB_OK), te_join = (\<lambda>iter i. CB_OK),
      te_clock = (\<lambda>iter i. (real iter + real i / 8, real iter + real i / 8 + 1 / 4)),
      te_lock_order = (\<lambda>iter i. 10 - i)\<rparr>"

definition example_process_env :: process_env where
  "example_process_env =
     \<lparr>pe_calloc_ok = True,
      pe_clock = (\<lambda>iter. (real iter, real iter + 1 / 2)),
      pe_pipe_create = (\<lambda>iter i. CB_OK),
      pe_spawn = (\<lambda>iter i. CB_OK),
      pe_pipe = (\<lambda>iter i. [Available 16]),
      pe_wait = (\<lambda>iter i. (CB_OK, 0)),
      pe_child_clock = (\<lambda>iter i. (real iter, real iter + 1 / 4))\<rparr>"


definition example_dataset :: "int list" where
  "example_dataset = [6, 84, 2, 21]"

section \<open>Process coordinator, Windows (bench\_process\_win.c, platform\_win.c, main.c)\<close>

text \<open>
  The Windows coordinator copies the dataset into a shared memory segment once. In each
  iteration it clears the result slots, spawns the workers by re-invoking the
  executable with \<open>--worker\<close> and the worker's arguments printed in decimal, waits
  for all of them and then adds up the result slots. A spawned worker is the program
  itself: its \<open>main\<close> parses the argument vector that the C runtime derives from the
  command line and, for a worker invocation, runs \<open>cb_bench_process_worker_main\<close>,
  which opens the segment, computes \<open>cb_array_sum\<close> on its slice and writes the
  result into its slot. The trace records the spawn, wait and kill calls.

  \<open>dec_nat\<close> and \<open>dec_int\<close> are \<open>snprintf\<close> with \<open>"%lu"\<close> and \<open>"%d"\<close>. The
  buffers of the coordinator (16 characters for an \<open>int\<close>, 64 for the segment name)
  hold every value of the C types, so no output is truncated.
\<close>

fun dec_nat :: "nat \<Rightarrow> string" where
  "dec_nat n =
     (if n < 10 then [''0123456789'' ! n]
      else dec_nat (n div 10) @ [''0123456789'' ! (n mod 10)])"

declare dec_nat.simps [simp del]

definition dec_int :: "int \<Rightarrow> string" where
  "dec_int k = (if k < 0 then CHR ''-'' # dec_nat (nat (- k)) else dec_nat (nat k))"

text \<open>
  The platform: \<open>we_exe_path\<close> is the path stored by \<open>cb_get_exe_path\<close> (\<open>None\<close>
  when it returns \<open>CB_ERR_PLATFORM\<close>), \<open>we_pid\<close> the result of
  \<open>GetCurrentProcessId\<close>, \<open>we_create_process\<close> whether \<open>CreateProcessA\<close> succeeds,
  \<open>we_argv_of\<close> the argument vector that the C runtime of a child derives from its
  command line, \<open>we_libc\<close> the number parsers of the child, \<open>we_shm_open\<close> the result
  of the child's \<open>cb_shared_mem_open\<close> on a segment name, \<open>we_wait_ok\<close> whether
  \<open>WaitForSingleObject\<close> succeeds and \<open>we_exit_code_ok\<close> whether
  \<open>GetExitCodeProcess\<close> does. All are indexed by iteration and worker where they
  can differ from call to call.
\<close>

record win_process_env =
  we_exe_path :: "string option"
  we_pid :: nat
  we_calloc_ok :: bool
  we_shm_create :: cb_error_t
  we_clock :: "nat \<Rightarrow> real \<times> real"
  we_create_process :: "nat \<Rightarrow> nat \<Rightarrow> bool"
  we_argv_of :: "string \<Rightarrow> string list"
  we_libc :: libc_parse
  we_shm_open :: "nat \<Rightarrow> nat \<Rightarrow> string \<Rightarrow> cb_error_t"
  we_child_clock :: "nat \<Rightarrow> nat \<Rightarrow> real \<times> real"
  we_wait_ok :: "nat \<Rightarrow> nat \<Rightarrow> bool"
  we_exit_code_ok :: "nat \<Rightarrow> nat \<Rightarrow> bool"

definition win_shm_name :: "win_process_env \<Rightarrow> string" where
  "win_shm_name env = ''concur_bench_'' @ dec_nat (we_pid env)"

text \<open>
  \<open>cb_process_spawn\<close> (platform\_win.c) joins the arguments with single blanks, without
  quoting, into a buffer of 4096 characters and passes the command line to
  \<open>CreateProcessA\<close>. \<open>Inr cmdline\<close> is \<open>CB_OK\<close>: a child runs with that command
  line.
\<close>

fun cmdline_loop :: "string list \<Rightarrow> bool \<Rightarrow> string \<Rightarrow> string option" where
  "cmdline_loop [] first cmdline = Some cmdline"
| "cmdline_loop (a # as) first cmdline =
     (let piece = (if first then a else CHR '' '' # a)
      in if 4096 - length cmdline \<le> length piece then None
         else cmdline_loop as False (cmdline @ piece))"

definition cb_process_spawn_win :: "bool \<Rightarrow> string list \<Rightarrow> cb_error_t + string" where
  "cb_process_spawn_win create_ok child_argv =
     (if child_argv = [] then Inl CB_ERR_ARGS
      else
        (case cmdline_loop child_argv True [] of
           None \<Rightarrow> Inl CB_ERR_OVERFLOW
         | Some cmdline \<Rightarrow> if create_ok then Inr cmdline else Inl CB_ERR_FORK))"

text \<open>\<open>cb_process_wait\<close> (platform\_win.c): \<open>Inr status\<close> is \<open>CB_OK\<close> with \<open>*status\<close> set.\<close>

definition cb_process_wait_win :: "bool \<Rightarrow> bool \<Rightarrow> int \<Rightarrow> cb_error_t + int" where
  "cb_process_wait_win wait_ok code_ok exit_code =
     (if \<not> wait_ok then Inl CB_ERR_PLATFORM
      else Inr (if code_ok then exit_code else - 1))"

text \<open>
  \<open>cb_bench_process_worker_main\<close> returns the exit code of the worker and, when it got
  that far, the slot it wrote and the result written. \<open>name\<close>, \<open>data\<close> and \<open>n\<close>
  describe the segment of the coordinator: its name, the dataset copied into it and the
  number of result slots. A worker that opens a segment under another name, or with
  another layout than the coordinator's, or writes outside the slots, is outside the
  model (\<open>None\<close>).
\<close>

definition cb_bench_process_worker_main ::
  "(real \<Rightarrow> real) \<Rightarrow> (string \<Rightarrow> cb_error_t) \<Rightarrow> real \<times> real \<Rightarrow> string \<Rightarrow> int list \<Rightarrow> int
     \<Rightarrow> cb_worker_args_t \<Rightarrow> (int \<times> (nat \<times> ('l::len) word cb_result_t) option) option" where
  "cb_bench_process_worker_main rnd shm_open clk name data n wa =
     (if shm_open (shm_name wa) \<noteq> CB_OK then Some (1, None)
      else if shm_name wa \<noteq> name \<or> array_size wa \<noteq> int (length data) \<or> num_workers wa \<noteq> n
      then None
      else
        (case cb_array_sum rnd clk data (worker_start wa) (worker_length wa) of
           None \<Rightarrow> None
         | Some result \<Rightarrow>
             if 0 \<le> worker_id wa \<and> worker_id wa < n
             then Some (0, Some (nat (worker_id wa), result))
             else None))"

text \<open>
  Steps 1 and 2 of \<open>main\<close> in a spawned child: an error of \<open>cb_parse_args\<close> ends the
  process with exit code 0 for \<open>CB_ERR_ARGS\<close> and 1 otherwise; a worker invocation
  is dispatched to \<open>cb_bench_process_worker_main\<close>. A child that is not a worker
  invocation goes on to the interactive benchmark, which is outside the model (\<open>None\<close>).
\<close>

definition main_win_child ::
  "libc_parse \<Rightarrow> (real \<Rightarrow> real) \<Rightarrow> (string \<Rightarrow> cb_error_t) \<Rightarrow> real \<times> real \<Rightarrow> string \<Rightarrow> int list
     \<Rightarrow> int \<Rightarrow> string list \<Rightarrow> (int \<times> (nat \<times> ('l::len) word cb_result_t) option) option" where
  "main_win_child libc rnd shm_open clk name data n argv =
     (case cb_parse_args libc argv (Some config_defaults) (Some False) (Some worker_args_zero) of
        (err, _, Some is_worker, Some wa) \<Rightarrow>
          if err \<noteq> CB_OK then Some (if err = CB_ERR_ARGS then 0 else 1, None)
          else if is_worker then cb_bench_process_worker_main rnd shm_open clk name data n wa
          else None
      | _ \<Rightarrow> None)"

definition win_child_argv :: "string \<Rightarrow> string \<Rightarrow> cb_config_t \<Rightarrow> nat \<Rightarrow> int \<Rightarrow> int \<Rightarrow> string list" where
  "win_child_argv exe_path name config i offset chunk =
     [exe_path, ''--worker'', dec_int (int i), name, dec_int (array_length config),
      dec_int (num_processes config), dec_int offset, dec_int chunk]"

definition win_spawn_call ::
  "win_process_env \<Rightarrow> string \<Rightarrow> cb_config_t \<Rightarrow> nat \<Rightarrow> nat \<Rightarrow> int \<Rightarrow> int \<Rightarrow> cb_error_t + string" where
  "win_spawn_call env exe_path config it i offset chunk =
     cb_process_spawn_win (we_create_process env it i)
       (win_child_argv exe_path (win_shm_name env) config i offset chunk)"

text \<open>
  The spawn loop, on the worker indices still to do. It returns the error, the number
  of children spawned, their command lines and the trace.
\<close>

fun win_spawn_loop ::
  "(nat \<Rightarrow> int \<Rightarrow> int \<Rightarrow> cb_error_t + string) \<Rightarrow> nat \<Rightarrow> int \<Rightarrow> int \<Rightarrow> nat list \<Rightarrow> int \<Rightarrow> nat
     \<Rightarrow> string list \<Rightarrow> proc_event list
     \<Rightarrow> cb_error_t \<times> nat \<times> string list \<times> proc_event list" where
  "win_spawn_loop spawn it base_len remainder [] offset spawned cmds evs =
     (CB_OK, spawned, cmds, evs)"
| "win_spawn_loop spawn it base_len remainder (i # is) offset spawned cmds evs =
     (let chunk = base_len + (if int i < remainder then 1 else 0)
      in case spawn i offset chunk of
           Inl err \<Rightarrow> (err, spawned, cmds, evs @ [EvSpawnFailed it i])
         | Inr cmdline \<Rightarrow>
             win_spawn_loop spawn it base_len remainder is (offset + chunk)
               (spawned + 1) (cmds @ [cmdline]) (evs @ [EvSpawn it i]))"

text \<open>The outcomes of the spawned children, in worker order.\<close>

fun run_children :: "(nat \<Rightarrow> 'a option) \<Rightarrow> nat list \<Rightarrow> 'a list option" where
  "run_children child [] = Some []"
| "run_children child (i # is) =
     (case child i of
        None \<Rightarrow> None
      | Some x \<Rightarrow>
          (case run_children child is of
             None \<Rightarrow> None
           | Some xs \<Rightarrow> Some (x # xs)))"

fun win_wait_loop ::
  "(nat \<Rightarrow> cb_error_t + int) \<Rightarrow> nat \<Rightarrow> nat list \<Rightarrow> cb_error_t \<Rightarrow> proc_event list
     \<Rightarrow> cb_error_t \<times> proc_event list" where
  "win_wait_loop wait it [] err evs = (err, evs)"
| "win_wait_loop wait it (i # is) err evs =
     (case wait i of
        Inl wait_err \<Rightarrow>
          win_wait_loop wait it is (if err = CB_OK then wait_err else err) (evs @ [EvWait it i])
      | Inr status \<Rightarrow>
          win_wait_loop wait it is
            (if status \<noteq> 0 \<and> err = CB_OK then CB_ERR_PLATFORM else err)
            (evs @ [EvWait it i]))"

text \<open>
  The result slots after the workers have terminated: each slot written holds the
  result its worker wrote, the others are still zero. The read loop adds them up.
\<close>

fun write_slots :: "(nat \<times> 'r) option list \<Rightarrow> 'r list \<Rightarrow> 'r list" where
  "write_slots [] slots = slots"
| "write_slots (None # ws) slots = write_slots ws slots"
| "write_slots (Some (j, r) # ws) slots = write_slots ws (slots[j := r])"

fun slot_loop :: "('l::len) word cb_result_t list \<Rightarrow> nat list \<Rightarrow> 'l word \<Rightarrow> 'l word" where
  "slot_loop slots [] iter_sum = iter_sum"
| "slot_loop slots (i # is) iter_sum = slot_loop slots is (iter_sum + result_sum (slots ! i))"

definition win_process_iteration ::
  "(real \<Rightarrow> real) \<Rightarrow> win_process_env \<Rightarrow> string \<Rightarrow> int list \<Rightarrow> cb_config_t \<Rightarrow> nat
     \<Rightarrow> ((cb_error_t + ('l::len) word \<times> real) \<times> proc_event list) option" where
  "win_process_iteration rnd env exe_path data config it =
     (let n = num_processes config
      in if n = 0 then None
         else
           (case win_spawn_loop (win_spawn_call env exe_path config it) it
                   (array_length config sdiv n) (array_length config smod n)
                   [0..<nat n] 0 0 [] [] of
              (err, spawned, cmds, evs) \<Rightarrow>
                if err \<noteq> CB_OK then Some (Inl err, evs @ cleanup_children it spawned)
                else
                  (case run_children
                          (\<lambda>i. main_win_child (we_libc env) rnd (we_shm_open env it i)
                                  (we_child_clock env it i) (win_shm_name env) data n
                                  (we_argv_of env (cmds ! i)))
                          [0..<spawned] of
                     None \<Rightarrow> None
                   | Some outs \<Rightarrow>
                       (case win_wait_loop
                               (\<lambda>i. cb_process_wait_win (we_wait_ok env it i)
                                       (we_exit_code_ok env it i) (fst (outs ! i)))
                               it [0..<spawned] CB_OK evs of
                          (err, evs) \<Rightarrow>
                            if err \<noteq> CB_OK then Some (Inl err, evs)
                            else
                              Some (Inr (slot_loop
                                           (write_slots (map snd outs)
                                              (replicate (nat n) \<lparr>result_sum = 0, elapsed_sec = 0\<rparr>))
                                           [0..<nat n] 0,
                                         rnd (snd (we_clock env it) - fst (we_clock env it))),
                                    evs)))))"

function win_process_loop ::
  "(real \<Rightarrow> real) \<Rightarrow> win_process_env \<Rightarrow> string \<Rightarrow> int list \<Rightarrow> cb_config_t \<Rightarrow> int
     \<Rightarrow> ('l::len) word \<Rightarrow> real list \<Rightarrow> proc_event list
     \<Rightarrow> ((cb_error_t + 'l word \<times> real list) \<times> proc_event list) option" where
  "win_process_loop rnd env exe_path data config iter verified_sum times_arr trace =
     (if iter < iterations config then
        (case win_process_iteration rnd env exe_path data config (nat iter) of
           None \<Rightarrow> None
         | Some (Inl err, evs) \<Rightarrow> Some (Inl err, trace @ evs)
         | Some (Inr (iter_sum, elapsed), evs) \<Rightarrow>
             win_process_loop rnd env exe_path data config (iter + 1)
               (if iter = 0 then iter_sum else verified_sum)
               (times_arr[nat iter := elapsed]) (trace @ evs))
      else Some (Inr (verified_sum, times_arr), trace))"
  by pat_completeness auto
termination
  by (relation "measure (\<lambda>(rnd, env, p, d, config, iter, v, t, tr). nat (iterations config - iter))")
     auto

declare win_process_loop.simps [simp del]

text \<open>
  \<open>cb_bench_process_run\<close> of bench\_process\_win.c. The \<open>memcpy\<close> into the segment
  reads \<open>array_length\<close> elements of the dataset, which has no defined behaviour when
  the dataset is shorter (\<open>None\<close>).
\<close>

definition cb_bench_process_run_win ::
  "(real \<Rightarrow> real) \<Rightarrow> win_process_env \<Rightarrow> int list option \<Rightarrow> cb_config_t option
     \<Rightarrow> ('l::len) word cb_run_report_t option
     \<Rightarrow> (cb_error_t \<times> 'l word cb_run_report_t option \<times> proc_event list) option" where
  "cb_bench_process_run_win rnd env dataset config report =
     (case (dataset, config, report) of
        (Some ds, Some cfg, Some rep) \<Rightarrow>
          (case we_exe_path env of
             None \<Rightarrow> Some (CB_ERR_PLATFORM, report, [])
           | Some exe_path \<Rightarrow>
               if \<not> we_calloc_ok env then Some (CB_ERR_ALLOC, report, [])
               else if we_shm_create env \<noteq> CB_OK then Some (we_shm_create env, report, [])
               else if array_length cfg < 0 \<or> int (length ds) < array_length cfg then None
               else
                 (case win_process_loop rnd env exe_path (take (nat (array_length cfg)) ds) cfg
                         0 0 (replicate (nat (iterations cfg)) 0) [] of
                    None \<Rightarrow> None
                  | Some (Inl err, trace) \<Rightarrow> Some (err, report, trace)
                  | Some (Inr (verified_sum, times_arr), trace) \<Rightarrow>
                      (case finish_report rnd ''process'' (num_processes cfg) cfg rep
                              verified_sum times_arr of
                         None \<Rightarrow> None
                       | Some (err, report') \<Rightarrow> Some (err, report', trace))))
      | _ \<Rightarrow> Some (CB_ERR_ARGS, report, []))"

text \<open>
  The return value of the failed spawn call that an \<open>EvSpawnFailed\<close> event stands
  for: worker \<open>i\<close> is given the slice that starts where the slices of the workers
  before it end.
\<close>

definition slice_offset :: "int \<Rightarrow> int \<Rightarrow> nat \<Rightarrow> int" where
  "slice_offset base_len remainder i =
     sum_list (map (\<lambda>j. base_len + (if int j < remainder then 1 else 0)) [0..<i])"

fun win_failed_call :: "win_process_env \<Rightarrow> cb_config_t \<Rightarrow> proc_event \<Rightarrow> cb_error_t option" where
  "win_failed_call env config (EvSpawnFailed it i) =
     (case we_exe_path env of
        None \<Rightarrow> None
      | Some exe_path \<Rightarrow>
          (let base_len = array_length config sdiv num_processes config;
               remainder = array_length config smod num_processes config
           in case win_spawn_call env exe_path config it i (slice_offset base_len remainder i)
                     (base_len + (if int i < remainder then 1 else 0)) of
                Inl err \<Rightarrow> Some err
              | Inr cmdline \<Rightarrow> None))"
| "win_failed_call env config _ = None"

text \<open>
  The worker arguments survive the command line: every worker that is spawned parses,
  from the argument vector of its command line, the worker arguments that the
  coordinator printed for it.
\<close>

definition worker_args_round_trip :: "win_process_env \<Rightarrow> string \<Rightarrow> cb_config_t \<Rightarrow> bool" where
  "worker_args_round_trip env exe_path config =
     (let n = num_processes config;
          b = array_length config sdiv n;
          r = array_length config smod n
      in \<forall>it.
           list_all
             (\<lambda>i. case win_spawn_call env exe_path config it i
                         (ws_start (slice_at b r (int i))) (ws_length (slice_at b r (int i))) of
                    Inl err \<Rightarrow> True
                  | Inr cmdline \<Rightarrow>
                      (case cb_parse_args (we_libc env) (we_argv_of env cmdline)
                              (Some config_defaults) (Some False) (Some worker_args_zero) of
                         (err, c, is_worker, wa) \<Rightarrow>
                           err = CB_OK \<and> is_worker = Some True
                           \<and> wa = Some \<lparr>worker_id = int i, shm_name = win_shm_name env,
                                          array_size = array_length config, num_workers = n,
                                          worker_start = ws_start (slice_at b r (int i)),
                                          worker_length = ws_length (slice_at b r (int i))\<rparr>))
             [0..<nat n])"

text \<open>
  The shape of the trace of a run that ends in the teardown of iteration \<open>it\<close>: it holds
  exactly one failed call \<open>f\<close>, which belongs to iteration \<open>it\<close> and returned \<open>err\<close>,
  and it ends with the kill and wait calls for the \<open>m\<close> children \<open>0, \<dots>, m - 1\<close>, which
  are the children spawned in iteration \<open>it\<close>; when \<open>f\<close> is the failed pipe creation
  or spawn of worker \<open>k\<close>, \<open>m = k\<close>.
\<close>

definition torn_down ::
  "(proc_event \<Rightarrow> cb_error_t option) \<Rightarrow> cb_error_t \<Rightarrow> nat \<Rightarrow> proc_event list \<Rightarrow> bool" where
  "torn_down failed err it evs =
     (\<exists>f pre m. filter is_failure evs = [f] \<and> failed f = Some err \<and> event_iter f = it
        \<and> evs = pre @ cleanup_children it m \<and> spawned_in it pre = [0..<m]
        \<and> (\<forall>k. spawn_phase_failure f = Some k \<longrightarrow> m = k))"

text \<open>
  The shape of the trace of a run that ends in the wait loop of iteration \<open>it\<close>: no
  call failed and no child was killed, and the trace ends with the wait calls for the
  children \<open>0, \<dots>, m - 1\<close>, which are the children spawned in iteration \<open>it\<close>.
\<close>

fun is_kill :: "proc_event \<Rightarrow> bool" where
  "is_kill (EvKill it i) = True"
| "is_kill _ = False"

definition waited_out :: "nat \<Rightarrow> proc_event list \<Rightarrow> bool" where
  "waited_out it evs =
     (\<exists>pre m. evs = pre @ map (EvWait it) [0..<m] \<and> spawned_in it pre = [0..<m]
        \<and> filter is_failure evs = [] \<and> filter is_kill evs = [])"

section \<open>Example environments with failures\<close>


text \<open>
  A C runtime that splits the command line at blanks (what the Microsoft runtime does
  with a command line without quotes and tabs).
\<close>

fun split_blanks :: "string \<Rightarrow> string \<Rightarrow> string list" where
  "split_blanks [] cur = (if cur = [] then [] else [cur])"
| "split_blanks (c # s) cur =
     (if c = CHR '' '' then (if cur = [] then split_blanks s [] else cur # split_blanks s [])
      else split_blanks s (cur @ [c]))"

definition example_win_env :: win_process_env where
  "example_win_env =
     \<lparr>we_exe_path = Some (''C:'' @ [CHR 0x5C] @ ''cb'' @ [CHR 0x5C] @ ''concur-bench.exe''),
      we_pid = 7, we_calloc_ok = True, we_shm_create = CB_OK,
      we_clock = (\<lambda>iter. (real iter, real iter + 1 / 2)),
      we_create_process = (\<lambda>iter i. True),
      we_argv_of = (\<lambda>cmdline. split_blanks cmdline []),
      we_libc = example_libc,
      we_shm_open = (\<lambda>iter i name. CB_OK),
      we_child_clock = (\<lambda>iter i. (real iter, real iter + 1 / 4)),
      we_wait_ok = (\<lambda>iter i. True),
      we_exit_code_ok = (\<lambda>iter i. True)\<rparr>"

text \<open>The same platform with the program installed under a path that holds a blank.\<close>

definition blank_path_win_env :: win_process_env where
  "blank_path_win_env =
     example_win_env\<lparr>we_exe_path :=
       Some (''C:'' @ [CHR 0x5C] @ ''Program Files'' @ [CHR 0x5C] @ ''concur-bench.exe'')\<rparr>"



section \<open>Sums over slices\<close>

text \<open>
  \<open>segment_sum dataset a b\<close> is the sum of the elements with indices in \<open>[a, b)\<close>, in the
  arithmetic of \<open>long int\<close>. \<open>contiguous_cover a b slices\<close> says that the slices, in list
  order, partition \<open>[a, b)\<close>: the first starts at \<open>a\<close>, each next one starts where the
  previous one ends, and the last ends at \<open>b\<close>. \<open>sum_partials\<close> runs the kernel on
  every slice of a list and adds up the partial sums, as the parallel coordinators do.
\<close>

definition segment_sum :: "int list \<Rightarrow> int \<Rightarrow> int \<Rightarrow> ('l::len) word" where
  "segment_sum dataset a b = sum_list (map word_of_int (take (nat (b - a)) (drop (nat a) dataset)))"

fun contiguous_cover :: "int \<Rightarrow> int \<Rightarrow> work_slice list \<Rightarrow> bool" where
  "contiguous_cover a b [] = (a = b)"
| "contiguous_cover a b (s # ss) =
     (ws_start s = a \<and> 0 \<le> ws_length s \<and> contiguous_cover (a + ws_length s) b ss)"

fun sum_partials ::
  "(real \<Rightarrow> real) \<Rightarrow> (nat \<Rightarrow> real \<times> real) \<Rightarrow> int list \<Rightarrow> nat \<Rightarrow> work_slice list
     \<Rightarrow> ('l::len) word option" where
  "sum_partials rnd clock dataset i [] = Some 0"
| "sum_partials rnd clock dataset i (s # ss) =
     (case cb_array_sum rnd (clock i) dataset (ws_start s) (ws_length s) of
        None \<Rightarrow> None
      | Some r \<Rightarrow>
          (case sum_partials rnd clock dataset (Suc i) ss of
             None \<Rightarrow> None
           | Some rest_sum \<Rightarrow> Some (result_sum r + rest_sum)))"

section \<open>Verification: work distribution\<close>

lemma slice_loop_closed:
  "0 \<le> i \<Longrightarrow> 0 \<le> r \<Longrightarrow> off = i * b + min i r \<Longrightarrow>
   slice_loop b r n i off = map (slice_at b r) [i..n - 1]"
proof (induction b r n i off rule: slice_loop.induct)
  case (1 b r n i off)
  show ?case
  proof (cases "i < n")
    case True
    have u: "[i..n - 1] = i # [i + 1..n - 1]" using True by (simp add: upto_rec1)
    have "slice_loop b r n (i + 1) (off + (b + (if i < r then 1 else 0))) = map (slice_at b r) [i + 1..n - 1]"
      using 1 True by (intro "1.IH") (auto simp: algebra_simps min_def)
    then show ?thesis using True 1(2-)
      by (subst slice_loop.simps) (simp add: u Let_def slice_at_def)
  next
    case False
    then show ?thesis by (subst slice_loop.simps) simp
  qed
qed

lemma chain_union:
  fixes f :: "nat \<Rightarrow> int"
  assumes "\<And>k. k < m \<Longrightarrow> f k \<le> f (Suc k)"
  shows "(\<Union>k<m. {f k ..< f (Suc k)}) = {f 0 ..< f m}"
  using assms
proof (induction m)
  case 0 then show ?case by simp
next
  case (Suc m)
  have mono: "f 0 \<le> f m" using Suc.prems
  proof (induction m)
    case 0 then show ?case by simp
  next
    case (Suc j) then show ?case by (metis lessI less_SucI order_trans)
  qed
  have "(\<Union>k<Suc m. {f k ..< f (Suc k)}) = {f 0 ..< f m} \<union> {f m ..< f (Suc m)}"
    using Suc by (simp add: lessThan_Suc Un_commute)
  also have "\<dots> = {f 0 ..< f (Suc m)}" using mono Suc.prems[of m] by auto
  finally show ?case .
qed

lemma sdiv_nonneg: "0 \<le> a \<Longrightarrow> 0 < b \<Longrightarrow> (a::int) sdiv b = a div b"
  by (simp add: signed_divide_int_def sgn_if)

lemma smod_nonneg: "0 \<le> a \<Longrightarrow> 0 < b \<Longrightarrow> (a::int) smod b = a mod b"
  by (simp add: signed_modulo_int_def sgn_if)

lemma ceil_div: "0 < n \<Longrightarrow> \<lceil>real_of_int L / real_of_int n\<rceil> = L div n + (if L mod n = 0 then 0 else 1)"
  by (simp add: ceiling_divide_eq_div zdiv_zminus1_eq_if)

lemma partition_slices_closed:
  assumes "0 \<le> L" "1 \<le> n"
  shows "partition_slices L n = Some (map (slice_at (L div n) (L mod n)) [0..n - 1])"
  using assms by (simp add: partition_slices_def sdiv_nonneg smod_nonneg slice_loop_closed)

lemma length_upto0: "length [0..n - 1] = nat n"
  by simp

lemma nth_slices:
  "k < nat n \<Longrightarrow> map (slice_at b r) [0..n - 1] ! k = slice_at b r (int k)"
  by simp

lemma slice_at_next:
  "0 \<le> r \<Longrightarrow> ws_start (slice_at b r (k + 1)) = ws_start (slice_at b r k) + ws_length (slice_at b r k)"
  by (auto simp: slice_at_def algebra_simps min_def)

lemma slice_at_mono:
  "0 \<le> b \<Longrightarrow> 0 \<le> r \<Longrightarrow> i \<le> j \<Longrightarrow> ws_start (slice_at b r i) \<le> ws_start (slice_at b r j)"
  by (auto simp: slice_at_def min_def intro: mult_right_mono add_mono)

lemma slice_at_disjoint:
  assumes "0 \<le> b" "0 \<le> r" "i < j"
  shows "slice_range (slice_at b r i) \<inter> slice_range (slice_at b r j) = {}"
proof -
  have "ws_start (slice_at b r i) + ws_length (slice_at b r i) = ws_start (slice_at b r (i + 1))"
    using assms by (simp add: slice_at_next)
  also have "\<dots> \<le> ws_start (slice_at b r j)"
    using assms by (intro slice_at_mono) auto
  finally show ?thesis by (auto simp: slice_range_def)
qed

lemma slices_union:
  assumes "0 \<le> b" "0 \<le> r" "0 \<le> n"
  shows "(\<Union>s\<in>set (map (slice_at b r) [0..n - 1]). slice_range s) = {0 ..< n * b + min n r}"
proof -
  let ?f = "\<lambda>k::nat. ws_start (slice_at b r (int k))"
  have step: "?f k \<le> ?f (Suc k)" for k
    using assms by (intro slice_at_mono) auto
  have rng: "slice_range (slice_at b r (int k)) = {?f k ..< ?f (Suc k)}" for k
    using slice_at_next[OF assms(2), of b "int k"] by (simp add: slice_range_def add.commute)
  have "set [0..n - 1] = int ` {..<nat n}"
  proof (intro set_eqI iffI)
    fix x assume "x \<in> set [0..n - 1]"
    then have "x = int (nat x)" "nat x < nat n" by auto
    then show "x \<in> int ` {..<nat n}" by blast
  next
    fix x assume "x \<in> int ` {..<nat n}"
    then show "x \<in> set [0..n - 1]" by auto
  qed
  then have "(\<Union>s\<in>set (map (slice_at b r) [0..n - 1]). slice_range s)
      = (\<Union>k<nat n. {?f k ..< ?f (Suc k)})"
    by (simp add: rng)
  also have "\<dots> = {?f 0 ..< ?f (nat n)}"
    by (rule chain_union) (rule step)
  also have "\<dots> = {0 ..< n * b + min n r}"
    using assms by (simp add: slice_at_def)
  finally show ?thesis .
qed

text \<open>
  Claim C2. For every array length and worker count \<open>n \<ge> 1\<close> (in particular for
  \<open>1 \<le> n \<le> 256\<close>, \<open>n \<le> array_length\<close>) the distribution loop yields \<open>n\<close> slices
  that start at 0, are contiguous (each slice starts where the previous one ends), are
  pairwise non-overlapping, cover exactly \<open>[0, array_length)\<close>, and the first
  \<open>array_length mod n\<close> slices have length \<open>\<lceil>array_length / n\<rceil>\<close> while the others have
  length \<open>\<lfloor>array_length / n\<rfloor>\<close>.
\<close>

theorem partition_coverage:
  assumes "0 \<le> alen" and "1 \<le> n"
  shows "\<exists>ss. partition_slices alen n = Some ss
     \<and> int (length ss) = n
     \<and> ws_start (ss ! 0) = 0
     \<and> (\<forall>k. Suc k < length ss \<longrightarrow>
            ws_start (ss ! Suc k) = ws_start (ss ! k) + ws_length (ss ! k))
     \<and> (\<forall>i j. i < j \<and> j < length ss \<longrightarrow>
            slice_range (ss ! i) \<inter> slice_range (ss ! j) = {})
     \<and> (\<Union>s\<in>set ss. slice_range s) = {0..<alen}
     \<and> (\<forall>k<length ss. ws_length (ss ! k) =
            (if int k < alen mod n
             then \<lceil>real_of_int alen / real_of_int n\<rceil>
             else \<lfloor>real_of_int alen / real_of_int n\<rfloor>))"
proof -
  define b r where "b = alen div n" and "r = alen mod n"
  define ss where "ss = map (slice_at b r) [0..n - 1]"
  have b: "0 \<le> b" and r: "0 \<le> r" "r < n" and L: "alen = n * b + r"
    using assms by (simp_all add: b_def r_def pos_imp_zdiv_nonneg_iff)
  have len: "length ss = nat n" by (simp add: ss_def)
  have nth: "ss ! k = slice_at b r (int k)" if "k < nat n" for k
    using that by (simp add: ss_def)
  have 1: "partition_slices alen n = Some ss"
    using assms by (simp add: partition_slices_closed ss_def b_def r_def)
  have 2: "int (length ss) = n" using assms len by simp
  have 3: "ws_start (ss ! 0) = 0"
    using assms r nth[of 0] by (simp add: slice_at_def)
  have 4: "ws_start (ss ! Suc k) = ws_start (ss ! k) + ws_length (ss ! k)"
    if "Suc k < length ss" for k
    using that len r slice_at_next[of r b "int k"] by (simp add: nth add.commute)
  have 5: "slice_range (ss ! i) \<inter> slice_range (ss ! j) = {}"
    if "i < j \<and> j < length ss" for i j
    using that len slice_at_disjoint[OF b r(1), of "int i" "int j"] by (simp add: nth)
  have 6: "(\<Union>s\<in>set ss. slice_range s) = {0..<alen}"
    using slices_union[OF b r(1), of n] assms r L by (simp add: ss_def min_def)
  have 7: "ws_length (ss ! k) =
            (if int k < alen mod n
             then \<lceil>real_of_int alen / real_of_int n\<rceil>
             else \<lfloor>real_of_int alen / real_of_int n\<rfloor>)"
    if "k < length ss" for k
  proof -
    have "ws_length (ss ! k) = b + (if int k < r then 1 else 0)"
      using that len by (simp add: nth slice_at_def)
    moreover have "\<lfloor>real_of_int alen / real_of_int n\<rfloor> = b"
      by (simp add: floor_divide_of_int_eq b_def)
    moreover have "\<lceil>real_of_int alen / real_of_int n\<rceil> = b + 1" if "int k < r"
      using that assms by (simp add: ceil_div b_def r_def)
    ultimately show ?thesis by (simp add: r_def)
  qed
  from 1 2 3 4 5 6 7 show ?thesis by blast
qed

theorem partition_coverage_witness:
  "(0::int) \<le> 10 \<and> (1::int) \<le> 3 \<and> (\<exists>ss. partition_slices 10 3 = Some ss
     \<and> int (length ss) = 3
     \<and> ws_start (ss ! 0) = 0
     \<and> (\<forall>k. Suc k < length ss \<longrightarrow>
            ws_start (ss ! Suc k) = ws_start (ss ! k) + ws_length (ss ! k))
     \<and> (\<forall>i j. i < j \<and> j < length ss \<longrightarrow>
            slice_range (ss ! i) \<inter> slice_range (ss ! j) = {})
     \<and> (\<Union>s\<in>set ss. slice_range s) = {0..<10}
     \<and> (\<forall>k<length ss. ws_length (ss ! k) =
            (if int k < 10 mod 3
             then \<lceil>real_of_int 10 / real_of_int 3\<rceil>
             else \<lfloor>real_of_int 10 / real_of_int 3\<rfloor>)))"
  using partition_coverage [of 10 3] by simp

section \<open>Verification: statistics engine\<close>

lemma stats_null_or_empty:
  "times_arr = None \<or> stats_out = None \<or> count < 1 \<Longrightarrow>
   cb_stats_compute rnd times_arr count stats_out = Some (CB_ERR_ARGS, stats_out)"
  by (auto simp: cb_stats_compute_def split: option.splits)

lemma first_pass_single:
  "first_pass rnd (t # ts) 1 0 0 t t = Some (rnd t, t, t)"
  by (simp add: first_pass.simps array_read_def)

lemma second_pass_single:
  "second_pass rnd (t # ts) 1 m 0 0 = Some (rnd (rnd (rnd (t - m) * rnd (t - m))))"
  by (simp add: second_pass.simps array_read_def Let_def)

text \<open>
  Claim C6. \<open>cb_stats_compute\<close> returns \<open>CB_ERR_ARGS\<close> (and leaves \<open>*stats_out\<close> as it
  was) whenever \<open>count < 1\<close>; for a single sample (\<open>count = 1\<close> on an array holding at
  least one element) it succeeds and the reported standard deviation is exactly 0, whatever
  the rounding of the arithmetic.
\<close>

theorem stats_compute_empty_and_single:
  "(count < 1 \<longrightarrow> cb_stats_compute rnd times_arr count stats_out = Some (CB_ERR_ARGS, stats_out))
   \<and> (\<exists>st. cb_stats_compute rnd (Some (t # ts)) 1 (Some out) = Some (CB_OK, Some st)
            \<and> stddev_sec st = 0)"
  by (simp add: stats_null_or_empty)
     (simp add: cb_stats_compute_def array_read_def first_pass_single second_pass_single Let_def)


theorem stats_compute_empty_and_single_witness:
  "(0::int) < 1
   \<and> cb_stats_compute rnd64 (Some []) 0 (Some stats_zero) = Some (CB_ERR_ARGS, Some stats_zero)
   \<and> (\<exists>st. cb_stats_compute rnd64 (Some [5 / 2]) 1 (Some stats_zero) = Some (CB_OK, Some st)
            \<and> stddev_sec st = 0)"
  using stats_compute_empty_and_single [of 0 rnd64 "Some []" "Some stats_zero" "5 / 2" "[]" stats_zero]
  by simp

lemma first_pass_exact:
  assumes "0 \<le> i" "count \<le> int (length ts)"
  shows "\<exists>s' mn' mx'. first_pass rnd ts count i s mn mx = Some (s', mn', mx')
      \<and> mn' \<le> mn \<and> mx \<le> mx' \<and> (mn' = mn \<or> (\<exists>k. i \<le> k \<and> k < count \<and> mn' = ts ! nat k))
      \<and> (mx' = mx \<or> (\<exists>k. i \<le> k \<and> k < count \<and> mx' = ts ! nat k))
      \<and> (\<forall>k. i \<le> k \<and> k < count \<longrightarrow> mn' \<le> ts ! nat k \<and> ts ! nat k \<le> mx')
      \<and> (rnd = (\<lambda>x. x) \<longrightarrow> of_int (max 0 (count - i)) * mn' \<le> s' - s \<and> s' - s \<le> of_int (max 0 (count - i)) * mx')"
  using assms
proof (induction rnd ts count i s mn mx rule: first_pass.induct)
  case (1 rnd ts count i s mn mx)
  show ?case
  proof (cases "i < count")
    case False
    then show ?thesis by (subst first_pass.simps) simp
  next
    case True
    define t where "t = ts ! nat i"
    have rd: "array_read ts i = Some t"
      using True 1(2,3) by (simp add: array_read_def t_def)
    let ?mn = "if t < mn then t else mn" and ?mx = "if t > mx then t else mx"
    have "0 \<le> i + 1" using 1(2) by simp
    from "1.IH"[OF True rd this 1(3)]
    obtain s' mn' mx' where
      fp: "first_pass rnd ts count (i + 1) (rnd (s + t)) ?mn ?mx = Some (s', mn', mx')"
      and lo: "mn' \<le> ?mn" and hi: "?mx \<le> mx'"
      and amn: "mn' = ?mn \<or> (\<exists>k. i + 1 \<le> k \<and> k < count \<and> mn' = ts ! nat k)"
      and amx: "mx' = ?mx \<or> (\<exists>k. i + 1 \<le> k \<and> k < count \<and> mx' = ts ! nat k)"
      and bnd: "\<forall>k. i + 1 \<le> k \<and> k < count \<longrightarrow> mn' \<le> ts ! nat k \<and> ts ! nat k \<le> mx'"
      and ex: "rnd = (\<lambda>x. x) \<longrightarrow> of_int (max 0 (count - (i + 1))) * mn' \<le> s' - rnd (s + t)
                 \<and> s' - rnd (s + t) \<le> of_int (max 0 (count - (i + 1))) * mx'"
      by (elim exE conjE) (rule that)
    have eq: "first_pass rnd ts count i s mn mx = Some (s', mn', mx')"
      using True rd fp by (subst first_pass.simps) simp
    have t_lo: "mn' \<le> t" and t_hi: "t \<le> mx'" using lo hi by (auto split: if_splits)
    have 1: "mn' \<le> mn" "mx \<le> mx'" using lo hi by (auto split: if_splits)
    have 2: "mn' = mn \<or> (\<exists>k. i \<le> k \<and> k < count \<and> mn' = ts ! nat k)"
    proof -
      from amn consider "mn' = ?mn" | k where "i + 1 \<le> k" "k < count" "mn' = ts ! nat k"
        by blast
      then show ?thesis
      proof cases
        case 1
        show ?thesis
        proof (cases "t < mn")
          case True
          with 1 have "i \<le> i \<and> i < count \<and> mn' = ts ! nat i" using \<open>i < count\<close> by (simp add: t_def)
          then show ?thesis by blast
        next
          case False with 1 show ?thesis by simp
        qed
      next
        case 2
        then have "i \<le> k \<and> k < count \<and> mn' = ts ! nat k" by simp
        then show ?thesis by blast
      qed
    qed
    have 3: "mx' = mx \<or> (\<exists>k. i \<le> k \<and> k < count \<and> mx' = ts ! nat k)"
    proof -
      from amx consider "mx' = ?mx" | k where "i + 1 \<le> k" "k < count" "mx' = ts ! nat k"
        by blast
      then show ?thesis
      proof cases
        case 1
        show ?thesis
        proof (cases "t > mx")
          case True
          with 1 have "i \<le> i \<and> i < count \<and> mx' = ts ! nat i" using \<open>i < count\<close> by (simp add: t_def)
          then show ?thesis by blast
        next
          case False with 1 show ?thesis by simp
        qed
      next
        case 2
        then have "i \<le> k \<and> k < count \<and> mx' = ts ! nat k" by simp
        then show ?thesis by blast
      qed
    qed
    have 4: "\<forall>k. i \<le> k \<and> k < count \<longrightarrow> mn' \<le> ts ! nat k \<and> ts ! nat k \<le> mx'"
    proof (intro allI impI)
      fix k assume k: "i \<le> k \<and> k < count"
      show "mn' \<le> ts ! nat k \<and> ts ! nat k \<le> mx'"
      proof (cases "k = i")
        case True then show ?thesis using t_lo t_hi by (simp add: t_def)
      next
        case False then show ?thesis using bnd k by simp
      qed
    qed
    have 5: "rnd = (\<lambda>x. x) \<longrightarrow> of_int (max 0 (count - i)) * mn' \<le> s' - s \<and> s' - s \<le> of_int (max 0 (count - i)) * mx'"
    proof
      assume r: "rnd = (\<lambda>x. x)"
      have m: "real_of_int (max 0 (count - i)) = real_of_int (max 0 (count - (i + 1))) + 1"
        using True by simp
      from ex r have "of_int (max 0 (count - (i + 1))) * mn' \<le> s' - (s + t)"
        and "s' - (s + t) \<le> of_int (max 0 (count - (i + 1))) * mx'" by simp_all
      then show "of_int (max 0 (count - i)) * mn' \<le> s' - s \<and> s' - s \<le> of_int (max 0 (count - i)) * mx'"
        using t_lo t_hi unfolding m by (simp add: algebra_simps)
    qed
    from eq 1 2 3 4 5 show ?thesis by blast
  qed
qed

lemma second_pass_defined:
  assumes "0 \<le> i" "count \<le> int (length ts)"
  shows "\<exists>v. second_pass rnd ts count m i vs = Some v"
  using assms
proof (induction rnd ts count m i vs rule: second_pass.induct)
  case (1 rnd ts count m i vs)
  show ?case
  proof (cases "i < count")
    case False
    then show ?thesis by (subst second_pass.simps) simp
  next
    case True
    have rd: "array_read ts i = Some (ts ! nat i)"
      using True 1(2,3) by (simp add: array_read_def)
    have "0 \<le> i + 1" using 1(2) by simp
    from "1.IH"[OF True rd refl this 1(3)]
    obtain v where "second_pass rnd ts count m (i + 1) (rnd (vs + rnd (rnd (ts ! nat i - m) * rnd (ts ! nat i - m)))) = Some v"
      by blast
    then show ?thesis using True rd by (subst second_pass.simps) (simp add: Let_def)
  qed
qed


lemma rnd64_tenth: "rnd64 (1 / 10) = binary64_tenth"
  by (simp add: binary64_tenth_def rnd64_def binary_exponent_def exp_down.simps round_half_even_def power_int_minus)

lemma take_set_nth:
  "count \<le> int (length ts) \<Longrightarrow> 0 \<le> k \<Longrightarrow> k < count \<Longrightarrow> ts ! nat k \<in> set (take (nat count) ts)"
proof -
  assume a: "count \<le> int (length ts)" "0 \<le> k" "k < count"
  then have "nat k < nat count" "nat count \<le> length ts" by linarith+
  then have "nat k < length (take (nat count) ts)" "take (nat count) ts ! nat k = ts ! nat k" by simp_all
  then show ?thesis by (metis nth_mem)
qed

text \<open>
  Claim C7, as amended. For every non-empty sample sequence (\<open>1 \<le> count\<close>, the array
  holding at least \<open>count\<close> samples) \<open>cb_stats_compute\<close> succeeds, \<open>min\<close> and \<open>max\<close> are
  the smallest and the largest sample, so \<open>min \<le> max\<close>; and \<open>min \<le> mean \<le> max\<close>
  holds when the sum and the division are computed without rounding error.
\<close>

theorem stats_min_mean_max:
  assumes "1 \<le> count" and "count \<le> int (length ts)"
  shows "\<exists>st. cb_stats_compute rnd (Some ts) count (Some out) = Some (CB_OK, Some st)
     \<and> min_sec st = Min (set (take (nat count) ts))
     \<and> max_sec st = Max (set (take (nat count) ts))
     \<and> min_sec st \<le> max_sec st
     \<and> (rnd = (\<lambda>x. x) \<longrightarrow> min_sec st \<le> mean_sec st \<and> mean_sec st \<le> max_sec st)"
proof -
  define t0 where "t0 = ts ! 0"
  have ne0: "ts \<noteq> []" using assms by auto
  have rd0: "array_read ts 0 = Some t0" using ne0 by (simp add: array_read_def t0_def)
  obtain s' mn' mx' where
    fp: "first_pass rnd ts count 0 0 t0 t0 = Some (s', mn', mx')"
    and lo: "mn' \<le> t0" and hi: "t0 \<le> mx'"
    and amn: "mn' = t0 \<or> (\<exists>k. 0 \<le> k \<and> k < count \<and> mn' = ts ! nat k)"
    and amx: "mx' = t0 \<or> (\<exists>k. 0 \<le> k \<and> k < count \<and> mx' = ts ! nat k)"
    and bnd: "\<forall>k. 0 \<le> k \<and> k < count \<longrightarrow> mn' \<le> ts ! nat k \<and> ts ! nat k \<le> mx'"
    and ex: "rnd = (\<lambda>x. x) \<longrightarrow> of_int (max 0 (count - 0)) * mn' \<le> s' - 0
                 \<and> s' - 0 \<le> of_int (max 0 (count - 0)) * mx'"
    using first_pass_exact[OF order_refl assms(2), where rnd=rnd and s=0 and mn=t0 and mx=t0]
    by (elim exE conjE) (rule that)
  define mean where "mean = rnd (s' / of_int count)"
  obtain v where sp: "second_pass rnd ts count mean 0 0 = Some v"
    using second_pass_defined[OF order_refl assms(2), where rnd=rnd and m=mean and vs=0] by blast
  define st where "st = out\<lparr>min_sec := mn', max_sec := mx', mean_sec := mean,
       stddev_sec := (if count > 1 then rnd (sqrt (rnd (v / of_int (count - 1)))) else 0),
       stats_iterations := count\<rparr>"
  have res: "cb_stats_compute rnd (Some ts) count (Some out) = Some (CB_OK, Some st)"
    using assms(1) by (simp add: cb_stats_compute_def rd0 fp sp Let_def mean_def[symmetric] st_def)
  let ?S = "set (take (nat count) ts)"
  have fin: "finite ?S" and ne: "?S \<noteq> {}" using assms by auto
  have mem: "ts ! nat k \<in> ?S" if "0 \<le> k" "k < count" for k
    using that assms(2) by (rule_tac take_set_nth)
  have t0_mem: "t0 \<in> ?S" using mem[of 0] assms(1) by (simp add: t0_def)
  have all: "mn' \<le> x \<and> x \<le> mx'" if "x \<in> ?S" for x
  proof -
    from that obtain j where j: "j < length (take (nat count) ts)" "x = take (nat count) ts ! j"
      by (auto simp: in_set_conv_nth)
    then have "j < nat count" by simp
    then have "0 \<le> int j \<and> int j < count" by linarith
    with bnd have "mn' \<le> ts ! nat (int j) \<and> ts ! nat (int j) \<le> mx'" by blast
    then show ?thesis using j by simp
  qed
  have mn_mem: "mn' \<in> ?S" using amn t0_mem mem by auto
  have mx_mem: "mx' \<in> ?S" using amx t0_mem mem by auto
  have mn: "mn' = Min ?S" using fin mn_mem all by (intro Min_eqI[symmetric]) auto
  have mx: "mx' = Max ?S" using fin mx_mem all by (intro Max_eqI[symmetric]) auto
  have le: "mn' \<le> mx'" using lo hi by simp
  have mean_ok: "mn' \<le> mean \<and> mean \<le> mx'" if r: "rnd = (\<lambda>x. x)"
  proof -
    have c: "0 < real_of_int count" using assms(1) by simp
    from ex r assms(1) have "of_int count * mn' \<le> s'" "s' \<le> of_int count * mx'" by simp_all
    then show ?thesis using c by (simp add: mean_def r field_simps)
  qed
  have "min_sec st = Min ?S \<and> max_sec st = Max ?S \<and> min_sec st \<le> max_sec st
     \<and> (rnd = (\<lambda>x. x) \<longrightarrow> min_sec st \<le> mean_sec st \<and> mean_sec st \<le> max_sec st)"
    using mn mx le mean_ok by (simp add: st_def)
  with res show ?thesis by blast
qed

theorem stats_min_mean_max_witness:
  "(1::int) \<le> 3 \<and> (3::int) \<le> int (length [1, 2, 3 :: real])
   \<and> (\<exists>st. cb_stats_compute (\<lambda>x. x) (Some [1, 2, 3]) 3 (Some stats_zero) = Some (CB_OK, Some st)
     \<and> min_sec st = Min (set (take (nat 3) [1, 2, 3]))
     \<and> max_sec st = Max (set (take (nat 3) [1, 2, 3]))
     \<and> min_sec st \<le> max_sec st
     \<and> min_sec st \<le> mean_sec st \<and> mean_sec st \<le> max_sec st)"
  using stats_min_mean_max [of 3 "[1, 2, 3]" "\<lambda>x. x" stats_zero] by simp

lemmas rnd64_eval = rnd64_def binary_exponent_def exp_down.simps exp_up.simps round_half_even_def power_int_minus

lemma stats_compute_ok:
  assumes "1 \<le> count" "array_read ts 0 = Some t0"
    and "first_pass rnd ts count 0 0 t0 t0 = Some (s, mn, mx)"
    and "second_pass rnd ts count (rnd (s / of_int count)) 0 0 = Some v"
  shows "cb_stats_compute rnd (Some ts) count (Some out) =
     Some (CB_OK, Some (out\<lparr>min_sec := mn, max_sec := mx, mean_sec := rnd (s / of_int count),
       stddev_sec := (if count > 1 then rnd (sqrt (rnd (v / of_int (count - 1)))) else 0),
       stats_iterations := count\<rparr>))"
  using assms by (simp add: cb_stats_compute_def Let_def)

lemma fp3: "first_pass rnd64 [binary64_tenth, binary64_tenth, binary64_tenth] 3 0 0 binary64_tenth binary64_tenth
   = Some (1351079888211149 / 4503599627370496, binary64_tenth, binary64_tenth)"
  by (simp add: first_pass.simps array_read_def binary64_tenth_def rnd64_eval)

lemma mean3: "rnd64 (1351079888211149 / 13510798882111488) = 7205759403792795 / 72057594037927936"
  by (simp add: rnd64_eval)

text \<open>
  Claim C7 as stated fails under binary64 rounding: for the three samples 0.1, 0.1, 0.1
  (each the double nearest to one tenth) the accumulated sum is 0.30000000000000004 and
  the mean 0.10000000000000002, which exceeds \<open>max = 0.1\<close>.
\<close>

theorem stats_mean_above_max_counterexample:
  "fst (the (cb_stats_compute rnd64 (Some [binary64_tenth, binary64_tenth, binary64_tenth]) 3
        (Some stats_zero))) = CB_OK
   \<and> \<not> mean_sec (the (snd (the (cb_stats_compute rnd64
          (Some [binary64_tenth, binary64_tenth, binary64_tenth]) 3 (Some stats_zero)))))
       \<le> max_sec (the (snd (the (cb_stats_compute rnd64
          (Some [binary64_tenth, binary64_tenth, binary64_tenth]) 3 (Some stats_zero)))))"
proof -
  let ?ts = "[binary64_tenth, binary64_tenth, binary64_tenth]"
  obtain v where sp: "second_pass rnd64 ?ts 3
       (rnd64 (1351079888211149 / 4503599627370496 / of_int 3)) 0 0 = Some v"
    using second_pass_defined[where i=0 and count=3 and ts="?ts"
       and rnd=rnd64 and m="rnd64 (1351079888211149 / 4503599627370496 / of_int 3)" and vs=0]
    by auto
  have rd: "array_read ?ts 0 = Some binary64_tenth" by (simp add: array_read_def)
  have res: "cb_stats_compute rnd64 (Some ?ts) 3 (Some stats_zero) =
     Some (CB_OK, Some (stats_zero\<lparr>min_sec := binary64_tenth, max_sec := binary64_tenth,
       mean_sec := rnd64 (1351079888211149 / 4503599627370496 / of_int 3),
       stddev_sec := (if (3::int) > 1 then rnd64 (sqrt (rnd64 (v / of_int (3 - 1)))) else 0),
       stats_iterations := 3\<rparr>))"
    by (rule stats_compute_ok[OF _ rd fp3 sp]) simp
  show ?thesis
    by (simp add: res mean3) (simp add: binary64_tenth_def)
qed

section \<open>Verification: shared accumulator\<close>

lemma apply_updates_general:
  assumes "\<forall>r\<in>set rs. 0 \<le> fst (snd r) \<and> 0 \<le> snd (snd r)"
  shows "shared_sum (apply_updates rs sh) = shared_sum sh + sum_list (map fst rs)
     \<and> latest_end (apply_updates rs sh) = Max (insert (latest_end sh) ((snd \<circ> snd) ` set rs))
     \<and> earliest_start (apply_updates rs sh) =
         (if rs = [] then earliest_start sh
          else if earliest_start sh < 0 then Min ((fst \<circ> snd) ` set rs)
          else Min (insert (earliest_start sh) ((fst \<circ> snd) ` set rs)))"
  using assms
proof (induction rs arbitrary: sh)
  case Nil
  then show ?case by simp
next
  case (Cons r rs)
  obtain p s e where r: "r = (p, s, e)" by (cases r)
  let ?sh = "critical_section p s e sh"
  have s0: "0 \<le> s" "0 \<le> e" using Cons.prems r by auto
  have sum1: "shared_sum ?sh = shared_sum sh + p"
    and late1: "latest_end ?sh = max (latest_end sh) e"
    and early1: "earliest_start ?sh = (if earliest_start sh < 0 then s else min (earliest_start sh) s)"
    by (auto simp: critical_section_def Let_def)
  have ih: "shared_sum (apply_updates rs ?sh) = shared_sum ?sh + sum_list (map fst rs)
     \<and> latest_end (apply_updates rs ?sh) = Max (insert (latest_end ?sh) ((snd \<circ> snd) ` set rs))
     \<and> earliest_start (apply_updates rs ?sh) =
         (if rs = [] then earliest_start ?sh
          else if earliest_start ?sh < 0 then Min ((fst \<circ> snd) ` set rs)
          else Min (insert (earliest_start ?sh) ((fst \<circ> snd) ` set rs)))"
    using Cons.prems by (intro Cons.IH) simp
  have A: "shared_sum (apply_updates (r # rs) sh) = shared_sum sh + sum_list (map fst (r # rs))"
    using ih by (simp add: r sum1 add.assoc)
  have B: "latest_end (apply_updates (r # rs) sh) = Max (insert (latest_end sh) ((snd \<circ> snd) ` set (r # rs)))"
  proof -
    have "Max (insert (max (latest_end sh) e) ((snd \<circ> snd) ` set rs))
        = Max (insert (latest_end sh) (insert e ((snd \<circ> snd) ` set rs)))"
      by (cases "rs = []") (simp_all add: max.assoc)
    then show ?thesis using ih by (simp add: r late1)
  qed
  have nn: "0 \<le> earliest_start ?sh" using s0 by (simp add: early1)
  have C: "earliest_start (apply_updates (r # rs) sh) =
         (if earliest_start sh < 0 then Min ((fst \<circ> snd) ` set (r # rs))
          else Min (insert (earliest_start sh) ((fst \<circ> snd) ` set (r # rs))))"
  proof (cases "rs = []")
    case True
    then show ?thesis by (simp add: r early1)
  next
    case False
    then have E: "earliest_start (apply_updates rs ?sh) = Min (insert (earliest_start ?sh) ((fst \<circ> snd) ` set rs))"
      using ih nn by simp
    show ?thesis
    proof (cases "earliest_start sh < 0")
      case True
      then show ?thesis using E False by (simp add: r early1)
    next
      case F: False
      have "Min (insert (min (earliest_start sh) s) ((fst \<circ> snd) ` set rs))
         = Min (insert (earliest_start sh) (insert s ((fst \<circ> snd) ` set rs)))"
        using False by (simp add: min.assoc)
      then show ?thesis using E F False by (simp add: r early1)
    qed
  qed
  from A B C show ?case by simp
qed

lemma sum_list_reorder:
  fixes f :: "nat \<Rightarrow> 'a::comm_monoid_add"
  assumes "distinct ord" "set ord = {..<n}"
  shows "sum_list (map f ord) = sum_list (map f [0..<n])"
proof -
  have "sum_list (map f ord) = sum f (set ord)"
    using assms(1) by (simp add: sum_list_distinct_conv_sum_set)
  also have "\<dots> = sum f (set [0..<n])" using assms(2) by (simp add: lessThan_atLeast0)
  also have "\<dots> = sum_list (map f [0..<n])"
    by (simp add: sum_list_distinct_conv_sum_set)
  finally show ?thesis .
qed

lemma set_reorder:
  assumes "set ord = {..<length rs}"
  shows "set (map ((!) rs) ord) = set rs"
proof (intro set_eqI iffI)
  fix x assume "x \<in> set (map ((!) rs) ord)"
  then obtain i where "i \<in> set ord" "x = rs ! i" by auto
  then show "x \<in> set rs" using assms by auto
next
  fix x assume "x \<in> set rs"
  then obtain i where "i < length rs" "x = rs ! i" by (auto simp: in_set_conv_nth)
  then have "i \<in> set ord" using assms by simp
  then show "x \<in> set (map ((!) rs) ord)" using \<open>x = rs ! i\<close> by auto
qed

text \<open>
  Claim C3, as amended. For every non-empty collection of thread results whose
  timestamps are all non-negative, and for every order \<open>ord\<close> in which the threads
  perform their locked update (a permutation of the thread indices), the accumulator
  that started as \<open>sum = 0, earliest_start = -1.0, latest_end = 0.0\<close> ends with
  \<open>sum\<close> the total of the partial sums, \<open>earliest_start\<close> the minimum of the start
  timestamps and \<open>latest_end\<close> the maximum of the end timestamps.
\<close>

theorem thread_accumulator_nonneg:
  fixes rs :: "(('l::len) word \<times> real \<times> real) list"
  assumes "rs \<noteq> []" and "\<forall>r\<in>set rs. 0 \<le> fst (snd r) \<and> 0 \<le> snd (snd r)"
    and "distinct ord" and "set ord = {..<length rs}"
  shows "shared_sum (apply_updates (map ((!) rs) ord) shared_init) = sum_list (map fst rs)
     \<and> earliest_start (apply_updates (map ((!) rs) ord) shared_init) = Min ((fst \<circ> snd) ` set rs)
     \<and> latest_end (apply_updates (map ((!) rs) ord) shared_init) = Max ((snd \<circ> snd) ` set rs)"
proof -
  define xs where "xs = map ((!) rs) ord"
  have set_xs: "set xs = set rs" unfolding xs_def using assms(4) by (rule set_reorder)
  have ne: "xs \<noteq> []" using set_xs assms(1) by (metis set_empty)
  have nn: "\<forall>r\<in>set xs. 0 \<le> fst (snd r) \<and> 0 \<le> snd (snd r)"
    using assms(2) set_xs by simp
  note g = apply_updates_general[OF nn, of shared_init, unfolded set_xs]
  have "sum_list (map fst xs) = sum_list (map (\<lambda>i. fst (rs ! i)) ord)"
    by (simp add: xs_def comp_def)
  also have "\<dots> = sum_list (map (\<lambda>i. fst (rs ! i)) [0..<length rs])"
    using assms(3,4) by (rule sum_list_reorder)
  also have "\<dots> = sum_list (map fst (map ((!) rs) [0..<length rs]))"
    by (simp add: comp_def)
  also have "\<dots> = sum_list (map fst rs)"
    by (simp only: map_nth)
  finally have S: "sum_list (map fst xs) = sum_list (map fst rs)" .
  have fin: "finite ((snd \<circ> snd) ` set rs)" "(snd \<circ> snd) ` set rs \<noteq> {}"
    using assms(1) by auto
  have "0 \<le> Max ((snd \<circ> snd) ` set rs)"
  proof -
    obtain r where "r \<in> set rs" using assms(1) by (cases rs) auto
    then have "0 \<le> snd (snd r)" "(snd \<circ> snd) r \<in> (snd \<circ> snd) ` set rs" using assms(2) by auto
    then show ?thesis using fin by (metis Max_ge comp_apply order_trans)
  qed
  then have M: "Max (insert 0 ((snd \<circ> snd) ` set rs)) = Max ((snd \<circ> snd) ` set rs)"
    using fin by simp
  have i1: "shared_sum (shared_init :: 'l word cb_thread_shared_t) = 0"
    and i2: "latest_end (shared_init :: 'l word cb_thread_shared_t) = 0"
    and i3: "earliest_start (shared_init :: 'l word cb_thread_shared_t) < 0"
    by (simp_all add: shared_init_def)
  have 1: "shared_sum (apply_updates xs shared_init) = sum_list (map fst rs)"
    using g S i1 by simp
  have 2: "earliest_start (apply_updates xs shared_init) = Min ((fst \<circ> snd) ` set rs)"
    using g ne i3 by presburger
  have 3: "latest_end (apply_updates xs shared_init) = Max ((snd \<circ> snd) ` set rs)"
    using g M i2 by presburger
  from 1 2 3 show ?thesis unfolding xs_def by blast
qed


theorem thread_accumulator_nonneg_witness:
  "example_results \<noteq> []
   \<and> list_all (\<lambda>r. 0 \<le> fst (snd r) \<and> 0 \<le> snd (snd r)) example_results
   \<and> distinct [1, 0 :: nat] \<and> set [1, 0 :: nat] = {..<length example_results}
   \<and> shared_sum (apply_updates (map ((!) example_results) [1, 0]) shared_init) = 11
   \<and> earliest_start (apply_updates (map ((!) example_results) [1, 0]) shared_init) = 1
   \<and> latest_end (apply_updates (map ((!) example_results) [1, 0]) shared_init) = 7"
proof -
  have h1: "example_results \<noteq> []"
    and h2: "\<forall>r\<in>set example_results. 0 \<le> fst (snd r) \<and> 0 \<le> snd (snd r)"
    and h3: "distinct [1, 0 :: nat]"
    and h4: "set [1, 0 :: nat] = {..<length example_results}"
    by (auto simp: example_results_def)
  from thread_accumulator_nonneg [OF h1 h2 h3 h4] h1 h2 h3 h4
  show ?thesis by (simp add: example_results_def list_all_iff)
qed

text \<open>
  Claim C3 as stated (every collection of timestamps) fails: \<open>earliest_start < 0\<close>
  doubles as the "unset" marker, so a negative start timestamp is overwritten by the next
  thread. \<open>cb_time_now\<close> returns \<open>-1.0\<close> when the clock cannot be read; with the
  starts \<open>-1.0\<close> and \<open>3.0\<close> the accumulator ends at \<open>3.0\<close>, not at the minimum
  \<open>-1.0\<close>, and the result depends on the order of the two updates.
\<close>

theorem thread_accumulator_counterexample:
  "earliest_start (apply_updates [(0, - 1, 5), (0, 3, 6)] (shared_init :: 64 word cb_thread_shared_t))
     \<noteq> Min ((fst \<circ> snd) ` set [(0 :: 64 word, - 1, 5), (0, 3, 6 :: real)])
   \<and> earliest_start (apply_updates [(0, - 1, 5), (0, 3, 6)] (shared_init :: 64 word cb_thread_shared_t))
     \<noteq> earliest_start (apply_updates [(0, 3, 6), (0, - 1, 5)] (shared_init :: 64 word cb_thread_shared_t))"
  by (simp add: critical_section_def shared_init_def Let_def)

section \<open>Verification: pipe reads\<close>

lemma pipe_read_loop_result:
  "pipe_read_loop evs remaining consumed = Some (e, c) \<Longrightarrow>
   (e = CB_OK \<or> e = CB_ERR_PIPE) \<and> (e = CB_OK \<longrightarrow> c = consumed + remaining)
   \<and> (e = CB_ERR_PIPE \<longrightarrow> c < consumed + remaining)"
proof (induction evs arbitrary: remaining consumed)
  case Nil
  then show ?case by (simp add: pipe_read_loop.simps split: if_splits)
next
  case (Cons ev evs)
  show ?case
  proof (cases "remaining > 0")
    case False
    with Cons.prems show ?thesis by (simp add: pipe_read_loop.simps)
  next
    case True
    show ?thesis
    proof (cases "sys_read ev remaining")
      case (Failed eintr)
      show ?thesis
      proof (cases eintr)
        case True
        with Cons.prems Failed \<open>remaining > 0\<close>
        have "pipe_read_loop evs remaining consumed = Some (e, c)"
          by (simp add: pipe_read_loop.simps)
        then show ?thesis by (rule Cons.IH)
      next
        case False
        with Cons.prems Failed \<open>remaining > 0\<close> show ?thesis
          by (simp add: pipe_read_loop.simps)
      qed
    next
      case (Bytes n)
      have le: "n \<le> remaining" using Bytes by (auto simp: sys_read_def split: read_event.splits)
      show ?thesis
      proof (cases "n = 0")
        case True
        with Cons.prems Bytes \<open>remaining > 0\<close> show ?thesis
          by (simp add: pipe_read_loop.simps)
      next
        case False
        with Cons.prems Bytes \<open>remaining > 0\<close>
        have "pipe_read_loop evs (remaining - n) (consumed + n) = Some (e, c)"
          by (simp add: pipe_read_loop.simps)
        from Cons.IH[OF this] le show ?thesis by auto
      qed
    qed
  qed
qed

lemma pipe_read_loop_failure:
  "data_or_retry pre \<Longrightarrow> delivered pre < remaining \<Longrightarrow> channel_failure ev \<Longrightarrow>
   pipe_read_loop (pre @ ev # rest) remaining consumed = Some (CB_ERR_PIPE, consumed + delivered pre)"
proof (induction pre arbitrary: remaining consumed rule: data_or_retry.induct)
  case 1
  then show ?case
    by (cases ev) (simp_all add: pipe_read_loop.simps sys_read_def)
next
  case (2 k evs)
  then have "min k remaining = k" "0 < k" "delivered evs < remaining - k" by auto
  with 2 show ?case
    by (subst pipe_read_loop.simps) (simp add: sys_read_def add.assoc)
next
  case (3 evs)
  then show ?case
    by (subst pipe_read_loop.simps) (simp add: sys_read_def)
qed simp_all

lemma pipe_read_loop_success:
  "data_or_retry evs \<Longrightarrow> remaining \<le> delivered evs \<Longrightarrow>
   pipe_read_loop evs remaining consumed = Some (CB_OK, consumed + remaining)"
proof (induction evs arbitrary: remaining consumed rule: data_or_retry.induct)
  case 1
  then show ?case by (simp add: pipe_read_loop.simps)
next
  case (2 k evs)
  show ?case
  proof (cases "remaining > 0")
    case False
    then show ?thesis by (simp add: pipe_read_loop.simps)
  next
    case True
    have k: "0 < k" "data_or_retry evs" using 2(2) by auto
    have "remaining - min k remaining \<le> delivered evs" using 2(3) by auto
    from "2.IH"[OF k(2) this, of "consumed + min k remaining"] True k(1)
    show ?thesis
      by (subst pipe_read_loop.simps) (simp add: sys_read_def)
  qed
next
  case (3 evs)
  then show ?case
    by (subst pipe_read_loop.simps) (simp add: sys_read_def)
qed simp_all

lemma ReadFile_le: "ReadFile ev to_read = (ok, n) \<Longrightarrow> n \<le> to_read"
  by (auto simp: ReadFile_def split: read_event.splits)

lemma win_pipe_read_loop_result:
  "win_pipe_read_loop evs remaining consumed = Some (e, c) \<Longrightarrow>
   (e = CB_OK \<or> e = CB_ERR_PIPE) \<and> (e = CB_OK \<longrightarrow> c = consumed + remaining)
   \<and> (e = CB_ERR_PIPE \<longrightarrow> c < consumed + remaining)"
proof (induction evs arbitrary: remaining consumed)
  case Nil
  then show ?case by (simp add: win_pipe_read_loop.simps split: if_splits)
next
  case (Cons ev evs)
  show ?case
  proof (cases "remaining > 0")
    case False
    with Cons.prems show ?thesis by (simp add: win_pipe_read_loop.simps)
  next
    case True
    define to_read where "to_read = (if remaining > 4294967295 then 4294967295 else remaining)"
    obtain ok n where rf: "ReadFile ev to_read = (ok, n)" by (cases "ReadFile ev to_read")
    have le: "n \<le> remaining" using ReadFile_le[OF rf] by (simp add: to_read_def split: if_splits)
    show ?thesis
    proof (cases "ok \<and> n \<noteq> 0")
      case False
      with Cons.prems True rf have "e = CB_ERR_PIPE \<and> c = consumed"
        by (cases ok; cases "n = 0")
           (simp_all add: win_pipe_read_loop.simps[of "ev # evs"] to_read_def[symmetric])
      with True show ?thesis by simp
    next
      case ok: True
      with Cons.prems True rf
      have "win_pipe_read_loop evs (remaining - n) (consumed + n) = Some (e, c)"
        by (simp add: win_pipe_read_loop.simps[of "ev # evs"] to_read_def[symmetric])
      from Cons.IH[OF this] le show ?thesis by auto
    qed
  qed
qed

lemma win_pipe_read_loop_failure:
  "data_only pre \<Longrightarrow> delivered pre < remaining \<Longrightarrow> channel_failure ev \<Longrightarrow>
   win_pipe_read_loop (pre @ ev # rest) remaining consumed = Some (CB_ERR_PIPE, consumed + delivered pre)"
proof (induction pre arbitrary: remaining consumed rule: data_only.induct)
  case 1
  then show ?case
    by (cases ev) (simp_all add: win_pipe_read_loop.simps ReadFile_def)
next
  case (2 k evs)
  then have k: "0 < k" "data_only evs" "k < remaining" "k \<le> 4294967295" by auto
  define to_read where "to_read = (if remaining > 4294967295 then 4294967295 else remaining)"
  define n where "n = min k to_read"
  have n: "0 < n" "n \<le> k" "n \<le> remaining" using k by (auto simp: n_def to_read_def)
  have step: "win_pipe_read_loop ((Available k # evs) @ ev # rest) remaining consumed
      = win_pipe_read_loop (evs @ ev # rest) (remaining - n) (consumed + n)"
    using k n by (subst win_pipe_read_loop.simps)
      (simp add: ReadFile_def to_read_def[symmetric] n_def[symmetric])
  show ?case
  proof (cases "n = k")
    case True
    have "delivered evs < remaining - k" using 2(3) by simp
    from "2.IH"[OF k(2) this 2(4), of "consumed + k"] step True
    show ?thesis by (simp add: add.assoc)
  next
    case False
    then have "to_read < k" using n by (simp add: n_def)
    then have "False" using k(3,4) by (simp add: to_read_def split: if_splits)
    then show ?thesis ..
  qed
qed simp_all

lemma win_pipe_read_loop_success:
  "data_only evs \<Longrightarrow> remaining \<le> delivered evs \<Longrightarrow>
   win_pipe_read_loop evs remaining consumed = Some (CB_OK, consumed + remaining)"
proof (induction evs arbitrary: remaining consumed rule: data_only.induct)
  case 1
  then show ?case by (simp add: win_pipe_read_loop.simps)
next
  case (2 k evs)
  show ?case
  proof (cases "remaining > 0")
    case False
    then show ?thesis by (simp add: win_pipe_read_loop.simps)
  next
    case True
    have k: "0 < k" "data_only evs" using 2(2) by auto
    define to_read where "to_read = (if remaining > 4294967295 then 4294967295 else remaining)"
    define n where "n = min k to_read"
    have n: "0 < n" "n \<le> remaining" "remaining - n \<le> delivered evs"
      using k True 2(2,3) by (auto simp: n_def to_read_def)
    have step: "win_pipe_read_loop (Available k # evs) remaining consumed
      = win_pipe_read_loop evs (remaining - n) (consumed + n)"
      using True n by (subst win_pipe_read_loop.simps)
        (simp add: ReadFile_def to_read_def[symmetric] n_def[symmetric])
    from "2.IH"[OF k(2) n(3), of "consumed + n"] step n(2)
    show ?thesis by simp
  qed
qed simp_all

text \<open>
  Claim C5. \<open>cb_pipe_read\<close> (both implementations) returns only \<open>CB_OK\<close> or
  \<open>CB_ERR_PIPE\<close>; it returns \<open>CB_OK\<close> only when exactly \<open>size\<close> bytes have been
  consumed, and every \<open>CB_ERR_PIPE\<close> comes with fewer than \<open>size\<close> bytes consumed
  (a short read never succeeds). When the end of file or a read error arrives after fewer
  than \<open>size\<close> bytes, the result is \<open>CB_ERR_PIPE\<close>; when the pipe delivers at least
  \<open>size\<close> bytes first, the call returns \<open>CB_OK\<close>.
\<close>

theorem pipe_read_exact:
  "(cb_pipe_read evs sz = Some (CB_OK, c) \<longrightarrow> c = sz)
   \<and> (cb_pipe_read evs sz = Some (e, c) \<longrightarrow> e = CB_OK \<or> (e = CB_ERR_PIPE \<and> c < sz))
   \<and> (data_or_retry pre \<and> delivered pre < sz \<and> channel_failure ev \<longrightarrow>
        cb_pipe_read (pre @ ev # rest) sz = Some (CB_ERR_PIPE, delivered pre))
   \<and> (data_or_retry full \<and> sz \<le> delivered full \<longrightarrow> cb_pipe_read full sz = Some (CB_OK, sz))
   \<and> (cb_pipe_read_win wevs sz = Some (CB_OK, c) \<longrightarrow> c = sz)
   \<and> (cb_pipe_read_win wevs sz = Some (e, c) \<longrightarrow> e = CB_OK \<or> (e = CB_ERR_PIPE \<and> c < sz))
   \<and> (data_only wpre \<and> delivered wpre < sz \<and> channel_failure ev \<longrightarrow>
        cb_pipe_read_win (wpre @ ev # rest) sz = Some (CB_ERR_PIPE, delivered wpre))
   \<and> (data_only wfull \<and> sz \<le> delivered wfull \<longrightarrow> cb_pipe_read_win wfull sz = Some (CB_OK, sz))"
proof -
  have 1: "cb_pipe_read evs sz = Some (CB_OK, c) \<longrightarrow> c = sz"
    using pipe_read_loop_result[of evs sz 0 CB_OK c] by (simp add: cb_pipe_read_def)
  have 2: "cb_pipe_read evs sz = Some (e, c) \<longrightarrow> e = CB_OK \<or> (e = CB_ERR_PIPE \<and> c < sz)"
    using pipe_read_loop_result[of evs sz 0 e c] by (auto simp: cb_pipe_read_def)
  have 3: "data_or_retry pre \<and> delivered pre < sz \<and> channel_failure ev \<longrightarrow>
        cb_pipe_read (pre @ ev # rest) sz = Some (CB_ERR_PIPE, delivered pre)"
    using pipe_read_loop_failure[of pre sz ev rest 0] by (simp add: cb_pipe_read_def)
  have 4: "data_or_retry full \<and> sz \<le> delivered full \<longrightarrow> cb_pipe_read full sz = Some (CB_OK, sz)"
    using pipe_read_loop_success[of full sz 0] by (simp add: cb_pipe_read_def)
  have 5: "cb_pipe_read_win wevs sz = Some (CB_OK, c) \<longrightarrow> c = sz"
    using win_pipe_read_loop_result[of wevs sz 0 CB_OK c] by (simp add: cb_pipe_read_win_def)
  have 6: "cb_pipe_read_win wevs sz = Some (e, c) \<longrightarrow> e = CB_OK \<or> (e = CB_ERR_PIPE \<and> c < sz)"
    using win_pipe_read_loop_result[of wevs sz 0 e c] by (auto simp: cb_pipe_read_win_def)
  have 7: "data_only wpre \<and> delivered wpre < sz \<and> channel_failure ev \<longrightarrow>
        cb_pipe_read_win (wpre @ ev # rest) sz = Some (CB_ERR_PIPE, delivered wpre)"
    using win_pipe_read_loop_failure[of wpre sz ev rest 0] by (simp add: cb_pipe_read_win_def)
  have 8: "data_only wfull \<and> sz \<le> delivered wfull \<longrightarrow> cb_pipe_read_win wfull sz = Some (CB_OK, sz)"
    using win_pipe_read_loop_success[of wfull sz 0] by (simp add: cb_pipe_read_win_def)
  from 1 2 3 4 5 6 7 8 show ?thesis by blast
qed

theorem pipe_read_exact_witness:
  "cb_pipe_read [Available 10, Interrupted, Available 8] 16 = Some (CB_OK, 16)
   \<and> data_or_retry [Available 10, Interrupted] \<and> delivered [Available 10, Interrupted] < 16
   \<and> channel_failure EndOfFile
   \<and> cb_pipe_read ([Available 10, Interrupted] @ EndOfFile # [Available 6]) 16 = Some (CB_ERR_PIPE, 10)
   \<and> data_or_retry [Available 10, Interrupted, Available 8]
   \<and> 16 \<le> delivered [Available 10, Interrupted, Available 8]
   \<and> cb_pipe_read_win [Available 10, Available 8] 16 = Some (CB_OK, 16)
   \<and> data_only [Available 10] \<and> delivered [Available 10] < 16
   \<and> cb_pipe_read_win ([Available 10] @ EndOfFile # [Available 6]) 16 = Some (CB_ERR_PIPE, 10)
   \<and> data_only [Available 10, Available 8] \<and> 16 \<le> delivered [Available 10, Available 8]"
proof -
  note t = pipe_read_exact [of "[Available 10, Interrupted, Available 8]" 16 16 CB_OK
      "[Available 10, Interrupted]" EndOfFile "[Available 6]" "[Available 10, Interrupted, Available 8]"
      "[Available 10, Available 8]" "[Available 10]" "[Available 10, Available 8]"]
  have h1: "data_or_retry [Available 10, Interrupted] \<and> delivered [Available 10, Interrupted] < 16
      \<and> channel_failure EndOfFile" by simp
  have h2: "data_or_retry [Available 10, Interrupted, Available 8]
      \<and> 16 \<le> delivered [Available 10, Interrupted, Available 8]" by simp
  have h3: "data_only [Available 10] \<and> delivered [Available 10] < 16 \<and> channel_failure EndOfFile"
    by simp
  have h4: "data_only [Available 10, Available 8] \<and> 16 \<le> delivered [Available 10, Available 8]"
    by simp
  have d1: "delivered [Available 10, Interrupted] = 10" and d2: "delivered [Available 10] = 10"
    by simp_all
  note c3 = t[THEN conjunct2, THEN conjunct2, THEN conjunct1]
  note c4 = t[THEN conjunct2, THEN conjunct2, THEN conjunct2, THEN conjunct1]
  note c7 = t[THEN conjunct2, THEN conjunct2, THEN conjunct2, THEN conjunct2, THEN conjunct2,
      THEN conjunct2, THEN conjunct1]
  note c8 = t[THEN conjunct2, THEN conjunct2, THEN conjunct2, THEN conjunct2, THEN conjunct2,
      THEN conjunct2, THEN conjunct2]
  note r1 = mp[OF c3 h1, unfolded d1]
  note r2 = mp[OF c4 h2]
  note r3 = mp[OF c7 h3, unfolded d2]
  note r4 = mp[OF c8 h4]
  show ?thesis
    by (intro conjI r1 r2 r3 r4 h1[THEN conjunct1] h1[THEN conjunct2, THEN conjunct1]
        h1[THEN conjunct2, THEN conjunct2] h2[THEN conjunct1] h2[THEN conjunct2]
        h3[THEN conjunct1] h3[THEN conjunct2, THEN conjunct1]
        h4[THEN conjunct1] h4[THEN conjunct2])
qed

section \<open>Verification: dataset generation\<close>

lemma smod_100_range: "0 \<le> r \<Longrightarrow> 1 \<le> r smod 100 + 1 \<and> r smod 100 + 1 \<le> (100::int)"
  by (simp add: smod_nonneg)

lemma fill_loop_props:
  "\<forall>st. 0 \<le> fst (rand st) \<Longrightarrow>
   set (fill_loop rand st i n data) \<subseteq> set data \<union> {1..100}
       \<and> int (length (fill_loop rand st i n data)) = int (length data) + max 0 (n - i)"
proof (induction rand st i n data rule: fill_loop.induct)
  case (1 rand st i n data)
  show ?case
  proof (cases "i < n")
    case False
    then show ?thesis by (subst (1 2) fill_loop.simps) simp
  next
    case True
    obtain r st' where rs: "rand st = (r, st')" by (cases "rand st")
    have "0 \<le> fst (rand st)" using 1(2) by blast
    then have r: "0 \<le> r" using rs by simp
    have step: "fill_loop rand st i n data = fill_loop rand st' (i + 1) n (data @ [r smod 100 + 1])"
      using True rs by (subst fill_loop.simps) simp
    from "1.IH"[OF True rs[symmetric] 1(2)]
    have ih: "set (fill_loop rand st' (i + 1) n (data @ [r smod 100 + 1]))
          \<subseteq> set (data @ [r smod 100 + 1]) \<union> {1..100}"
      and ihl: "int (length (fill_loop rand st' (i + 1) n (data @ [r smod 100 + 1])))
          = int (length (data @ [r smod 100 + 1])) + max 0 (n - (i + 1))"
      by simp_all
    have "r smod 100 + 1 \<in> {1..100}" using smod_100_range[OF r] by simp
    then show ?thesis using ih ihl True unfolding step by auto
  qed
qed

lemma dataset_create_fixed_seed:
  assumes "seed cfg \<noteq> 0"
  shows "cb_dataset_create prng env (Some cfg) (Some p) v =
     (if malloc_ok env
      then (CB_OK, Some cfg,
            Some (Some (fill_loop (rand_fn prng) (srand_fn prng (seed cfg)) 0 (array_length cfg) [])))
      else (CB_ERR_ALLOC, Some cfg, Some None))"
  using assms by (simp add: cb_dataset_create_def Let_def)

text \<open>
  Claim C8. With a fixed nonzero seed the dataset is a function of the seed and the
  array length alone: two successful runs of \<open>cb_dataset_create\<close> with the same seed and
  length (whatever the clock, the verbose flag and the other configuration fields) yield
  identical datasets, every element lies in \<open>[1, 100]\<close>, and the configuration, the
  seed included, is left as it was. The elements' range rests on \<open>rand()\<close> returning
  non-negative numbers, as the C standard prescribes.
\<close>

theorem dataset_deterministic:
  assumes "seed cfg \<noteq> 0" and "seed cfg' = seed cfg" and "array_length cfg' = array_length cfg"
    and "\<forall>st. 0 \<le> fst (rand_fn prng st)"
    and "cb_dataset_create prng env (Some cfg) (Some p) v = (CB_OK, c1, d1)"
    and "cb_dataset_create prng env' (Some cfg') (Some p') v' = (CB_OK, c2, d2)"
  shows "d1 = d2 \<and> c1 = Some cfg \<and> c2 = Some cfg'
     \<and> (\<exists>data. d1 = Some (Some data) \<and> int (length data) = max 0 (array_length cfg)
            \<and> (\<forall>x\<in>set data. 1 \<le> x \<and> x \<le> 100))"
proof -
  let ?data = "fill_loop (rand_fn prng) (srand_fn prng (seed cfg)) 0 (array_length cfg) []"
  have s': "seed cfg' \<noteq> 0" using assms(1,2) by simp
  have r1: "c1 = Some cfg \<and> d1 = Some (Some ?data)"
    using assms(5) dataset_create_fixed_seed[OF assms(1), where prng=prng and env=env and p=p and v=v]
    by (auto split: if_splits)
  have r2: "c2 = Some cfg' \<and> d2 = Some (Some ?data)"
    using assms(6) dataset_create_fixed_seed[OF s', where prng=prng and env=env' and p=p' and v=v'] assms(2,3)
    by (auto split: if_splits)
  have "set ?data \<subseteq> {1..100}" and "int (length ?data) = max 0 (array_length cfg)"
    using fill_loop_props[OF assms(4), where i=0 and n="array_length cfg" and data="[]"
        and st="srand_fn prng (seed cfg)"] by simp_all
  then have "int (length ?data) = max 0 (array_length cfg) \<and> (\<forall>x\<in>set ?data. 1 \<le> x \<and> x \<le> 100)"
    by auto
  with r1 r2 show ?thesis by blast
qed

lemma lcg_nonneg: "\<forall>st. 0 \<le> fst (rand_fn lcg st)"
  by (simp add: lcg_def Let_def)

lemma example_run1:
  "cb_dataset_create lcg \<lparr>time_null = 0, malloc_ok = True\<rparr> (Some example_config) (Some None) False
    = (CB_OK, Some example_config, Some (Some [6, 84, 2, 21]))"
  by code_simp

theorem dataset_deterministic_witness:
  "seed example_config \<noteq> 0
   \<and> cb_dataset_create lcg \<lparr>time_null = 0, malloc_ok = True\<rparr>
        (Some example_config) (Some None) False
      = (CB_OK, Some example_config, Some (Some [6, 84, 2, 21]))
   \<and> cb_dataset_create lcg \<lparr>time_null = 1700000000, malloc_ok = True\<rparr>
        (Some (example_config\<lparr>iterations := 9, verbose := True\<rparr>)) (Some (Some [0])) True
      = (CB_OK, Some (example_config\<lparr>iterations := 9, verbose := True\<rparr>), Some (Some [6, 84, 2, 21]))"
proof -
  let ?run2 = "cb_dataset_create lcg \<lparr>time_null = 1700000000, malloc_ok = True\<rparr>
        (Some (example_config\<lparr>iterations := 9, verbose := True\<rparr>)) (Some (Some [0])) True"
  have h1: "seed example_config \<noteq> 0" by (simp add: example_config_def)
  have h2: "seed (example_config\<lparr>iterations := 9, verbose := True\<rparr>) = seed example_config"
    and h3: "array_length (example_config\<lparr>iterations := 9, verbose := True\<rparr>) = array_length example_config"
    by simp_all
  have e: "fst ?run2 = CB_OK" by (simp add: cb_dataset_create_def Let_def)
  obtain e2 c2 d2 where run2': "?run2 = (e2, c2, d2)" by (rule prod_cases3)
  with e have run2: "?run2 = (CB_OK, c2, d2)" by simp
  from dataset_deterministic [OF h1 h2 h3 lcg_nonneg example_run1 run2]
  have "d2 = Some (Some [6, 84, 2, 21])"
    and "c2 = Some (example_config\<lparr>iterations := 9, verbose := True\<rparr>)"
    by simp_all
  with run2 have "?run2 = (CB_OK, Some (example_config\<lparr>iterations := 9, verbose := True\<rparr>),
      Some (Some [6, 84, 2, 21]))" by simp
  with h1 example_run1 show ?thesis by blast
qed

section \<open>Verification: input layer\<close>

lemma read_long_range:
  "read_long libc min_val max_val inp = (Inr v, rest) \<Longrightarrow> min_val \<le> v \<and> v \<le> max_val"
proof (induction inp)
  case Nil
  then show ?case by simp
next
  case (Cons raw inp)
  then show ?case by (auto simp: Let_def split: if_splits)
qed

lemma read_long_error:
  "read_long libc min_val max_val inp = (Inl e, rest) \<Longrightarrow> e = CB_ERR_INPUT"
  by (induction inp) (auto simp: Let_def split: if_splits)

lemma read_ulong_error:
  "read_ulong libc min_val max_val inp = (Inl e, rest) \<Longrightarrow> e = CB_ERR_INPUT"
  by (induction inp) (auto simp: Let_def split: if_splits)

lemma read_yes_no_error:
  "read_yes_no inp = (Inl e, rest) \<Longrightarrow> e = CB_ERR_INPUT"
  by (induction inp) (auto split: if_splits)

lemma input_interactive_iterations:
  assumes "cb_input_interactive libc config inp = (CB_OK, Some c, rest)"
  shows "1 \<le> iterations c \<and> iterations c \<le> 100"
proof -
  from assms obtain c5 val inp5 where
    "read_long libc 1 100 inp5 = (Inr val, rest)" and "c = c5\<lparr>iterations := val\<rparr>"
    by (auto simp: cb_input_interactive_def Let_def split: option.splits prod.splits sum.splits if_splits
        dest: read_long_error read_ulong_error read_yes_no_error)
  then show ?thesis using read_long_range[of libc 1 100 inp5 val rest] by simp
qed

lemma dataset_create_iterations:
  "cb_dataset_create prng env (Some c) data_out v = (e, c', d) \<Longrightarrow>
   map_option iterations c' = Some (iterations c)"
  by (auto simp: cb_dataset_create_def Let_def split: option.splits if_splits)

text \<open>
  Claim C9. Whenever \<open>main\<close> gets past \<open>cb_parse_args\<close> and
  \<open>cb_input_interactive\<close>, the configuration has \<open>1 \<le> iterations \<le> 100\<close>:
  \<open>cb_parse_args\<close> admits \<open>--iterations\<close> values up to 1000, but
  \<open>cb_input_interactive\<close> always prompts for the iteration count and overwrites it
  with a value that \<open>read_long\<close> has checked against \<open>[1, 100]\<close>. Dataset generation,
  which runs next on the same configuration, leaves \<open>iterations\<close> as it is.
\<close>

theorem accepted_iterations_range:
  assumes "main_input libc win32 worker_exit argv inp = Inr config"
  shows "1 \<le> iterations config \<and> iterations config \<le> 100
     \<and> map_option iterations (fst (snd (cb_dataset_create prng env (Some config) data_out v)))
         = Some (iterations config)"
proof -
  from assms obtain c0 rest where
    "cb_input_interactive libc (Some c0) inp = (CB_OK, Some config, rest)"
    by (auto simp: main_input_def split: prod.splits option.splits if_splits)
  then have "1 \<le> iterations config \<and> iterations config \<le> 100"
    by (rule input_interactive_iterations)
  moreover have "map_option iterations (fst (snd (cb_dataset_create prng env (Some config) data_out v)))
         = Some (iterations config)"
    using dataset_create_iterations[of prng env config data_out v] by (metis prod.collapse)
  ultimately show ?thesis by simp
qed

lemma example_input:
  "main_input example_libc False 0 [''concur-bench'', ''--iterations'', ''500'']
     [''n'' @ [CHR 0x0A], ''100'' @ [CHR 0x0A], ''1000'' @ [CHR 0x0A], ''4 cores'' @ [CHR 0x0A],
      ''4'' @ [CHR 0x0A], ''8'' @ [CHR 0x0A], ''314159'' @ [CHR 0x0A], ''500'' @ [CHR 0x0A], ''7'' @ [CHR 0x0A]]
   = Inr \<lparr>array_length = 1000, num_processes = 4, num_threads = 8, seed = 314159,
          iterations = 7, verbose = False\<rparr>"
  by code_simp

theorem accepted_iterations_range_witness:
  "main_input example_libc False 0 [''concur-bench'', ''--iterations'', ''500'']
     [''n'' @ [CHR 0x0A], ''100'' @ [CHR 0x0A], ''1000'' @ [CHR 0x0A], ''4 cores'' @ [CHR 0x0A],
      ''4'' @ [CHR 0x0A], ''8'' @ [CHR 0x0A], ''314159'' @ [CHR 0x0A], ''500'' @ [CHR 0x0A], ''7'' @ [CHR 0x0A]]
   = Inr \<lparr>array_length = 1000, num_processes = 4, num_threads = 8, seed = 314159,
          iterations = 7, verbose = False\<rparr>
   \<and> (1::int) \<le> 7 \<and> (7::int) \<le> 100
   \<and> map_option iterations (fst (snd (cb_dataset_create lcg \<lparr>time_null = 0, malloc_ok = True\<rparr>
         (Some \<lparr>array_length = 1000, num_processes = 4, num_threads = 8, seed = 314159,
          iterations = 7, verbose = False\<rparr>) (Some None) False))) = Some 7"
  using accepted_iterations_range [OF example_input, of lcg "\<lparr>time_null = 0, malloc_ok = True\<rparr>"
      "Some None" False] example_input
  by simp

section \<open>Verification: argument checks of the coordinators\<close>

text \<open>
  Claim C10. Called with a \<open>NULL\<close> dataset, configuration or report pointer,
  \<open>cb_bench_single_run\<close>, \<open>cb_bench_process_run\<close> (which then makes no platform
  call) and \<open>cb_bench_thread_run\<close> return \<open>CB_ERR_ARGS\<close> and leave \<open>*report\<close> as it
  was; called with a \<open>NULL\<close> array or output pointer, \<open>cb_stats_compute\<close> returns
  \<open>CB_ERR_ARGS\<close> and leaves \<open>*stats_out\<close> as it was.
\<close>

theorem null_arguments_rejected:
  fixes report :: "('l::len) word cb_run_report_t option"
  shows "(dataset = None \<or> config = None \<or> report = None \<longrightarrow>
      cb_bench_single_run rnd se dataset config report = Some (CB_ERR_ARGS, report)
    \<and> cb_bench_process_run rnd pe dataset config report = Some (CB_ERR_ARGS, report, [])
    \<and> cb_bench_thread_run rnd te dataset config report = Some (CB_ERR_ARGS, report))
   \<and> (times_arr = None \<or> stats_out = None \<longrightarrow>
      cb_stats_compute rnd times_arr count stats_out = Some (CB_ERR_ARGS, stats_out))"
  by (auto simp: cb_bench_single_run_def cb_bench_process_run_def cb_bench_thread_run_def
      cb_stats_compute_def split: option.splits)

theorem null_arguments_rejected_witness:
  "cb_bench_single_run rnd64 example_single_env None (Some example_config) (Some report_zero)
     = Some (CB_ERR_ARGS, Some report_zero)
   \<and> cb_bench_process_run rnd64 example_process_env None (Some example_config) (Some report_zero)
     = Some (CB_ERR_ARGS, Some report_zero, [])
   \<and> cb_bench_thread_run rnd64 example_thread_env None (Some example_config) (Some report_zero)
     = Some (CB_ERR_ARGS, Some report_zero)
   \<and> cb_stats_compute rnd64 None 3 (Some stats_zero) = Some (CB_ERR_ARGS, Some stats_zero)"
  using null_arguments_rejected [of None "Some example_config" "Some report_zero" rnd64
      example_single_env example_process_env example_thread_env None "Some stats_zero" 3]
  by simp

section \<open>Verification: sums of the three coordinators\<close>

lemma array_sum_loop_segment:
  "0 \<le> i \<Longrightarrow> stop \<le> int (length ds) \<Longrightarrow>
   array_sum_loop ds i stop acc = Some (acc + segment_sum ds i stop)"
proof (induction ds i stop acc rule: array_sum_loop.induct)
  case (1 ds i stop acc)
  show ?case
  proof (cases "i < stop")
    case False
    then show ?thesis by (subst array_sum_loop.simps) (simp add: segment_sum_def)
  next
    case True
    have rd: "array_read ds i = Some (ds ! nat i)"
      using True 1(2,3) by (simp add: array_read_def)
    have i1: "0 \<le> i + 1" using 1(2) by simp
    have lt: "nat i < length ds" using True 1(2,3) by linarith
    have n1: "nat (stop - i) = Suc (nat (stop - (i + 1)))" using True by linarith
    have n2: "nat (i + 1) = Suc (nat i)" using 1(2) by linarith
    have seg: "(segment_sum ds i stop :: 'a word)
        = word_of_int (ds ! nat i) + segment_sum ds (i + 1) stop"
      unfolding segment_sum_def n1 n2
      by (subst Cons_nth_drop_Suc[OF lt, symmetric]) simp
    from "1.IH"[OF True rd i1 1(3)]
    have "array_sum_loop ds (i + 1) stop (acc + word_of_int (ds ! nat i))
        = Some (acc + word_of_int (ds ! nat i) + segment_sum ds (i + 1) stop)" .
    then show ?thesis using True rd
      by (subst array_sum_loop.simps) (simp add: seg add.assoc)
  qed
qed

lemma segment_sum_split:
  assumes "0 \<le> a" "a \<le> b" "b \<le> c"
  shows "(segment_sum ds a c :: ('l::len) word) = segment_sum ds a b + segment_sum ds b c"
proof -
  have 1: "nat (c - a) = nat (b - a) + nat (c - b)" using assms by linarith
  have 2: "nat b = nat (b - a) + nat a" using assms by linarith
  show ?thesis
    unfolding segment_sum_def 1 2
    by (simp add: take_add drop_drop[symmetric] del: drop_drop)
qed

lemma segment_sum_empty [simp]: "segment_sum ds a a = 0"
  by (simp add: segment_sum_def)

lemma segment_sum_full: "segment_sum ds 0 (int (length ds)) = sum_list (map word_of_int ds)"
  by (simp add: segment_sum_def)

lemma cb_array_sum_segment:
  "0 \<le> start \<Longrightarrow> start + len \<le> int (length ds) \<Longrightarrow>
   cb_array_sum rnd clk ds start len =
     Some \<lparr>result_sum = segment_sum ds start (start + len), elapsed_sec = rnd (snd clk - fst clk)\<rparr>"
  by (simp add: cb_array_sum_def array_sum_loop_segment)

lemma sum_partials_cover:
  "contiguous_cover a b ss \<Longrightarrow> 0 \<le> a \<Longrightarrow> b \<le> int (length ds) \<Longrightarrow>
   (sum_partials rnd clock ds i ss :: ('l::len) word option) = Some (segment_sum ds a b) \<and> a \<le> b"
proof (induction ss arbitrary: a i)
  case Nil
  then show ?case by simp
next
  case (Cons s ss)
  then have s: "ws_start s = a" "0 \<le> ws_length s" "contiguous_cover (a + ws_length s) b ss"
    by auto
  from Cons.IH[OF s(3) _ Cons.prems(3), of "Suc i"] Cons.prems(2) s(2)
  have ih: "(sum_partials rnd clock ds (Suc i) ss :: 'l word option)
      = Some (segment_sum ds (a + ws_length s) b)"
    and le: "a + ws_length s \<le> b" by simp_all
  have "(cb_array_sum rnd (clock i) ds (ws_start s) (ws_length s) :: 'l word cb_result_t option) =
     Some \<lparr>result_sum = segment_sum ds a (a + ws_length s), elapsed_sec = rnd (snd (clock i) - fst (clock i))\<rparr>"
    using cb_array_sum_segment[of a "ws_length s" ds rnd "clock i"] Cons.prems(2,3) le s by simp
  then show ?case
    using ih le s(2) Cons.prems(2) segment_sum_split[of a "a + ws_length s" b ds, where 'l='l]
    by simp
qed

lemma finish_report_ok:
  "finish_report rnd name n cfg rep v t = Some (CB_OK, Some r) \<Longrightarrow>
   report_sum r = v \<and> 1 \<le> iterations cfg"
  by (auto simp: finish_report_def cb_stats_compute_def Let_def
      split: option.splits prod.splits if_splits)

lemma segment_telescope:
  fixes f :: "nat \<Rightarrow> int"
  assumes "\<And>k. k < m \<Longrightarrow> f k \<le> f (Suc k)" and "0 \<le> f 0"
  shows "(\<Sum>k\<leftarrow>[0..<m]. (segment_sum ds (f k) (f (Suc k)) :: ('l::len) word)) = segment_sum ds (f 0) (f m)
     \<and> f 0 \<le> f m"
  using assms(1)
proof (induction m)
  case 0
  then show ?case by simp
next
  case (Suc m)
  then have ih: "(\<Sum>k\<leftarrow>[0..<m]. (segment_sum ds (f k) (f (Suc k)) :: 'l word)) = segment_sum ds (f 0) (f m)"
    and le: "f 0 \<le> f m" by simp_all
  have step: "f m \<le> f (Suc m)" using Suc.prems by simp
  have "(segment_sum ds (f 0) (f (Suc m)) :: 'l word)
      = segment_sum ds (f 0) (f m) + segment_sum ds (f m) (f (Suc m))"
    using assms(2) le step by (rule segment_sum_split)
  then show ?case using ih le step by simp
qed

lemma slices_total:
  assumes "0 \<le> b" "0 \<le> r" "r \<le> int n"
  shows "(\<Sum>k\<leftarrow>[0..<n]. (segment_sum ds (ws_start (slice_at b r (int k)))
            (ws_start (slice_at b r (int k)) + ws_length (slice_at b r (int k))) :: ('l::len) word))
         = segment_sum ds 0 (int n * b + r)"
proof -
  let ?f = "\<lambda>k::nat. ws_start (slice_at b r (int k))"
  have step: "?f k \<le> ?f (Suc k)" for k
    using assms by (intro slice_at_mono) auto
  have nxt: "?f k + ws_length (slice_at b r (int k)) = ?f (Suc k)" for k
    using slice_at_next[OF assms(2), of b "int k"] by (simp add: add.commute)
  have f0: "?f 0 = 0" using assms by (simp add: slice_at_def)
  have fn: "?f n = int n * b + r" using assms by (simp add: slice_at_def min_def)
  have "(\<Sum>k\<leftarrow>[0..<n]. (segment_sum ds (?f k) (?f (Suc k)) :: 'l word)) = segment_sum ds (?f 0) (?f n)"
    using segment_telescope[of n ?f ds, where 'l='l] step f0 by simp
  then show ?thesis unfolding nxt f0 fn .
qed

lemma single_loop_sum:
  "single_loop rnd clock ds cfg iter (v :: ('l::len) word) t = Some (v', t') \<Longrightarrow> 0 \<le> iter \<Longrightarrow>
   array_length cfg \<le> int (length ds) \<Longrightarrow>
   v' = (if iter = 0 \<and> 0 < iterations cfg then segment_sum ds 0 (array_length cfg) else v)"
proof (induction rnd clock ds cfg iter v t rule: single_loop.induct)
  case (1 rnd clock ds cfg iter v t)
  show ?case
  proof (cases "iter < iterations cfg")
    case False
    with 1(2) show ?thesis by (auto simp: single_loop.simps)
  next
    case True
    let ?res = "\<lparr>result_sum = (segment_sum ds 0 (0 + array_length cfg) :: 'l word),
                  elapsed_sec = rnd (snd (clock (nat iter)) - fst (clock (nat iter)))\<rparr>"
    have cs: "cb_array_sum rnd (clock (nat iter)) ds 0 (array_length cfg) = Some ?res"
      using 1(4) by (intro cb_array_sum_segment) simp_all
    let ?v1 = "if iter = 0 then result_sum ?res else v"
    have rec: "single_loop rnd clock ds cfg (iter + 1) ?v1 (t[nat iter := elapsed_sec ?res]) = Some (v', t')"
    proof -
      have "single_loop rnd clock ds cfg iter v t =
        (case cb_array_sum rnd (clock (nat iter)) ds 0 (array_length cfg) of
           None \<Rightarrow> None
         | Some result \<Rightarrow>
             single_loop rnd clock ds cfg (iter + 1)
               (if iter = 0 then result_sum result else v)
               (t[nat iter := elapsed_sec result]))"
        using True by (subst single_loop.simps) (simp only: if_True)
      with 1(2) show ?thesis unfolding cs by (simp only: option.case)
    qed
    have "v' = (if iter + 1 = 0 \<and> 0 < iterations cfg then segment_sum ds 0 (array_length cfg) else ?v1)"
      using "1.IH"[OF True cs rec] 1(3,4) by simp
    then show ?thesis using 1(3) True by (auto split: if_splits)
  qed
qed

lemma single_run_sum:
  assumes "cb_bench_single_run rnd se (Some ds) (Some cfg) (Some rep) = Some (CB_OK, Some r)"
    and "array_length cfg \<le> int (length ds)"
  shows "report_sum r = segment_sum ds 0 (array_length cfg)"
proof -
  from assms(1) obtain v t where
    sl: "single_loop rnd (se_clock se) ds cfg 0 0 (replicate (nat (iterations cfg)) 0) = Some (v, t)"
    and fr: "finish_report rnd ''single'' 1 cfg rep v t = Some (CB_OK, Some r)"
    by (auto simp: cb_bench_single_run_def split: if_splits option.splits)
  from finish_report_ok[OF fr] have "report_sum r = v" "1 \<le> iterations cfg" by simp_all
  with single_loop_sum[OF sl _ assms(2)] show ?thesis by simp
qed

lemma create_loop_ok:
  "create_loop create is c = (CB_OK, c') \<Longrightarrow> c' = c + length is"
proof (induction "is" arbitrary: c)
  case Nil
  then show ?case by simp
next
  case (Cons i "is")
  from Cons.prems have "create_loop create is (c + 1) = (CB_OK, c')"
    by (simp add: Let_def split: if_splits)
  from Cons.IH[OF this] show ?case by simp
qed

lemma run_threads_sum:
  fixes sh :: "('l::len) word cb_thread_shared_t"
  assumes "\<forall>i\<in>set order. i < length params \<and> 0 \<le> ws_start (params ! i)
             \<and> ws_start (params ! i) + ws_length (params ! i) \<le> int (length ds)"
  shows "\<exists>sh'. run_threads ds params clock order sh = Some sh'
     \<and> shared_sum sh' = shared_sum sh
          + (\<Sum>i\<leftarrow>order. segment_sum ds (ws_start (params ! i))
                           (ws_start (params ! i) + ws_length (params ! i)))"
  using assms
proof (induction order arbitrary: sh)
  case Nil
  then show ?case by simp
next
  case (Cons i order)
  let ?p = "params ! i"
  let ?seg = "segment_sum ds (ws_start ?p) (ws_start ?p + ws_length ?p) :: 'l word"
  have i: "i < length params" "0 \<le> ws_start ?p" "ws_start ?p + ws_length ?p \<le> int (length ds)"
    using Cons.prems by auto
  have rd: "array_read params (int i) = Some ?p" using i(1) by (simp add: array_read_def)
  let ?sh1 = "critical_section ?seg (fst (clock i)) (snd (clock i)) sh"
  have fn: "cb_array_sum_thread_fn ds ?p (clock i) sh = Some ?sh1"
    using i(2,3) by (simp add: cb_array_sum_thread_fn_def array_sum_loop_segment)
  have s1: "shared_sum ?sh1 = shared_sum sh + ?seg"
    by (simp add: critical_section_def Let_def)
  from Cons.IH[of ?sh1] Cons.prems
  obtain sh' where r: "run_threads ds params clock order ?sh1 = Some sh'"
    and s: "shared_sum sh' = shared_sum ?sh1
          + (\<Sum>i\<leftarrow>order. segment_sum ds (ws_start (params ! i))
                           (ws_start (params ! i) + ws_length (params ! i)))"
    by auto
  have "run_threads ds params clock (i # order) sh = Some sh'"
    using rd fn r by simp
  moreover have "shared_sum sh' = shared_sum sh
          + (\<Sum>i\<leftarrow>i # order. segment_sum ds (ws_start (params ! i))
                           (ws_start (params ! i) + ws_length (params ! i)))"
    using s s1 by (simp add: add.assoc)
  ultimately show ?case by blast
qed

lemma thread_iteration_sum:
  fixes s :: "('l::len) word"
  assumes "thread_iteration rnd te ds cfg it = Some (Inr (s, e))"
    and "1 \<le> num_threads cfg" and "0 \<le> array_length cfg"
    and "array_length cfg \<le> int (length ds)"
  shows "s = segment_sum ds 0 (array_length cfg)"
proof -
  define n where "n = num_threads cfg"
  define L where "L = array_length cfg"
  define b r where "b = L div n" and "r = L mod n"
  define params where "params = map (slice_at b r) [0..n - 1]"
  have n: "1 \<le> n" using assms(2) by (simp add: n_def)
  have b: "0 \<le> b" and r: "0 \<le> r" "r < n" and Leq: "L = n * b + r"
    using assms(3) n by (simp_all add: b_def r_def L_def pos_imp_zdiv_nonneg_iff)
  have ps: "partition_slices (array_length cfg) n = Some params"
    using partition_slices_closed[of L n] assms(3) n
    by (simp add: params_def b_def r_def L_def)
  have len: "length params = nat n" by (simp add: params_def)
  have nth: "params ! k = slice_at b r (int k)" if "k < nat n" for k
    using that by (simp add: params_def)
  obtain err created where cl: "create_loop (te_create te it) [0..<nat n] 0 = (err, created)"
    by (cases "create_loop (te_create te it) [0..<nat n] 0")
  let ?order = "sort_key (te_lock_order te it) [0..<created]"
  from assms(1) obtain shared :: "'l word cb_thread_shared_t" where
    rt: "run_threads ds params (te_clock te it) ?order shared_init = Some shared"
    and ok: "err = CB_OK" and s: "s = shared_sum shared"
    by (auto simp: thread_iteration_def Let_def ps n_def[symmetric] cl
        split: option.splits if_splits)
  have created: "created = nat n"
    using create_loop_ok[of "te_create te it" "[0..<nat n]" 0 created] cl ok by simp
  have dist: "distinct ?order" and set_o: "set ?order = {..<nat n}"
    by (auto simp: created)
  have rng: "\<forall>i\<in>set ?order. i < length params \<and> 0 \<le> ws_start (params ! i)
             \<and> ws_start (params ! i) + ws_length (params ! i) \<le> int (length ds)"
  proof
    fix i assume "i \<in> set ?order"
    then have i: "i < nat n" by (simp add: created)
    have "0 \<le> ws_start (slice_at b r (int i))"
      using b r by (simp add: slice_at_def)
    moreover have "ws_start (slice_at b r (int i)) + ws_length (slice_at b r (int i))
        = ws_start (slice_at b r (int i + 1))"
      using slice_at_next[OF r(1), of b "int i"] by simp
    moreover have "ws_start (slice_at b r (int i + 1)) \<le> ws_start (slice_at b r n)"
      using i b r by (intro slice_at_mono) auto
    moreover have "ws_start (slice_at b r n) = L"
      using r Leq by (simp add: slice_at_def min_def)
    ultimately show "i < length params \<and> 0 \<le> ws_start (params ! i)
             \<and> ws_start (params ! i) + ws_length (params ! i) \<le> int (length ds)"
      using i len nth[OF i] assms(4) by (simp add: L_def)
  qed
  from run_threads_sum[OF rng, of "te_clock te it" "shared_init :: 'l word cb_thread_shared_t"] rt
  have "shared_sum shared = (\<Sum>i\<leftarrow>?order. segment_sum ds (ws_start (params ! i))
                           (ws_start (params ! i) + ws_length (params ! i)))"
    by (simp add: shared_init_def)
  also have "\<dots> = (\<Sum>i\<leftarrow>[0..<nat n]. segment_sum ds (ws_start (params ! i))
                           (ws_start (params ! i) + ws_length (params ! i)))"
    using dist set_o by (rule sum_list_reorder)
  also have "\<dots> = (\<Sum>i\<leftarrow>[0..<nat n]. segment_sum ds (ws_start (slice_at b r (int i)))
            (ws_start (slice_at b r (int i)) + ws_length (slice_at b r (int i))))"
    by (rule arg_cong[where f=sum_list], rule map_cong) (simp_all add: nth)
  also have "\<dots> = segment_sum ds 0 (int (nat n) * b + r)"
    using b r n by (intro slices_total) auto
  also have "\<dots> = segment_sum ds 0 L" using n Leq by simp
  finally show ?thesis by (simp add: s L_def)
qed

lemma thread_loop_sum:
  "thread_loop rnd te ds cfg iter (v :: ('l::len) word) t = Some (Inr (v', t')) \<Longrightarrow> 0 \<le> iter \<Longrightarrow>
   1 \<le> num_threads cfg \<Longrightarrow> 0 \<le> array_length cfg \<Longrightarrow> array_length cfg \<le> int (length ds) \<Longrightarrow>
   v' = (if iter = 0 \<and> 0 < iterations cfg then segment_sum ds 0 (array_length cfg) else v)"
proof (induction rnd te ds cfg iter v t rule: thread_loop.induct)
  case (1 rnd te ds cfg iter v t)
  show ?case
  proof (cases "iter < iterations cfg")
    case False
    with 1(2) show ?thesis by (auto simp: thread_loop.simps)
  next
    case True
    have unf: "thread_loop rnd te ds cfg iter v t =
        (case thread_iteration rnd te ds cfg (nat iter) of
           None \<Rightarrow> None
         | Some (Inl err) \<Rightarrow> Some (Inl err)
         | Some (Inr (s, elapsed)) \<Rightarrow>
             thread_loop rnd te ds cfg (iter + 1)
               (if iter = 0 then s else v)
               (t[nat iter := elapsed]))"
      using True by (subst thread_loop.simps) (simp only: if_True)
    from 1(2) obtain s :: "'l word" and e where
      ti: "thread_iteration rnd te ds cfg (nat iter) = Some (Inr (s, e))"
      and rec: "thread_loop rnd te ds cfg (iter + 1) (if iter = 0 then s else v) (t[nat iter := e])
          = Some (Inr (v', t'))"
      unfolding unf by (auto split: option.splits sum.splits prod.splits)
    have s: "s = segment_sum ds 0 (array_length cfg)"
      using thread_iteration_sum[OF ti 1(4,5,6)] .
    have "v' = (if iter + 1 = 0 \<and> 0 < iterations cfg then segment_sum ds 0 (array_length cfg)
                else (if iter = 0 then s else v))"
      using "1.IH"[OF True ti refl refl rec] 1(3,4,5,6) by simp
    then show ?thesis using 1(3) True s by (auto split: if_splits)
  qed
qed

lemma thread_iteration_error:
  "thread_iteration rnd te ds cfg it = Some (Inl err) \<Longrightarrow> err \<noteq> CB_OK"
  by (auto simp: thread_iteration_def Let_def split: option.splits prod.splits if_splits)

lemma thread_loop_error:
  "thread_loop rnd te ds cfg iter (v :: ('l::len) word) t = Some (Inl err) \<Longrightarrow> err \<noteq> CB_OK"
proof (induction rnd te ds cfg iter v t rule: thread_loop.induct)
  case (1 rnd te ds cfg iter v t)
  show ?case
  proof (cases "iter < iterations cfg")
    case False
    with 1(2) show ?thesis by (simp add: thread_loop.simps)
  next
    case True
    have unf: "thread_loop rnd te ds cfg iter v t =
        (case thread_iteration rnd te ds cfg (nat iter) of
           None \<Rightarrow> None
         | Some (Inl err) \<Rightarrow> Some (Inl err)
         | Some (Inr (s, elapsed)) \<Rightarrow>
             thread_loop rnd te ds cfg (iter + 1)
               (if iter = 0 then s else v)
               (t[nat iter := elapsed]))"
      using True by (subst thread_loop.simps) (simp only: if_True)
    from 1(2) consider
        "(thread_iteration rnd te ds cfg (nat iter) :: (cb_error_t + 'l word \<times> real) option)
           = Some (Inl err)"
      | s :: "'l word" and e where "thread_iteration rnd te ds cfg (nat iter) = Some (Inr (s, e))"
          "thread_loop rnd te ds cfg (iter + 1) (if iter = 0 then s else v) (t[nat iter := e])
             = Some (Inl err)"
      unfolding unf by (auto split: option.splits sum.splits prod.splits)
    then show ?thesis
    proof cases
      case 1
      then show ?thesis by (rule thread_iteration_error)
    next
      case 2
      from "1.IH"[OF True 2(1) refl refl 2(2)] show ?thesis .
    qed
  qed
qed

lemma thread_run_sum:
  fixes r :: "('l::len) word cb_run_report_t"
  assumes "cb_bench_thread_run rnd te (Some ds) (Some cfg) (Some rep) = Some (CB_OK, Some r)"
    and "1 \<le> num_threads cfg" and "0 \<le> array_length cfg"
    and "array_length cfg \<le> int (length ds)"
  shows "report_sum r = segment_sum ds 0 (array_length cfg)"
proof -
  from assms(1) obtain v t where
    tl: "thread_loop rnd te ds cfg 0 0 (replicate (nat (iterations cfg)) 0) = Some (Inr (v, t))"
    and fr: "finish_report rnd ''thread'' (num_threads cfg) cfg rep v t = Some (CB_OK, Some r)"
    by (auto simp: cb_bench_thread_run_def split: if_splits option.splits sum.splits prod.splits
        dest: thread_loop_error)
  from finish_report_ok[OF fr] have "report_sum r = v" "1 \<le> iterations cfg" by simp_all
  with thread_loop_sum[OF tl _ assms(2,3,4)] show ?thesis by simp
qed

lemma spawn_loop_ok:
  "spawn_loop pc sp it b r [k..<n] off spawned work evs = (CB_OK, sp', work', evs') \<Longrightarrow>
   off = ws_start (slice_at b r (int k)) \<Longrightarrow> 0 \<le> r \<Longrightarrow>
   work' = work @ map (\<lambda>i. slice_at b r (int i)) [k..<n] \<and> sp' = spawned + (n - k)"
proof (induction "n - k" arbitrary: k off spawned work evs)
  case 0
  then show ?case by simp
next
  case (Suc m)
  then have kn: "k < n" and m: "m = n - Suc k" by simp_all
  have upt: "[k..<n] = k # [Suc k..<n]" using kn by (simp add: upt_conv_Cons)
  let ?chunk = "b + (if int k < r then 1 else 0)"
  let ?w = "\<lparr>ws_start = off, ws_length = ?chunk\<rparr>"
  have w: "?w = slice_at b r (int k)"
    using Suc.prems(2) by (simp add: slice_at_def)
  from Suc.prems(1) have ok: "pc k = CB_OK" "sp k = CB_OK"
    and rec: "spawn_loop pc sp it b r [Suc k..<n] (off + ?chunk) (spawned + 1) (work @ [?w])
        (evs @ [EvPipeCreate it k, EvSpawn it k, EvCloseWrite it k]) = (CB_OK, sp', work', evs')"
    unfolding upt by (auto simp: Let_def split: if_splits)
  have off': "off + ?chunk = ws_start (slice_at b r (int (Suc k)))"
    using slice_at_next[OF Suc.prems(3), of b "int k"] Suc.prems(2)
    by (simp add: slice_at_def add.commute)
  from Suc.hyps(1)[OF m rec off' Suc.prems(3)]
  show ?case using kn by (simp add: upt w)
qed

lemma read_loop_ok:
  fixes s :: "('l::len) word"
  assumes "read_loop pipe child it is s evs = Some (CB_OK, s', evs')"
    and "\<forall>i\<in>set is. \<exists>res. child i = Some res \<and> result_sum res = g i"
  shows "s' = s + (\<Sum>i\<leftarrow>is. g i)"
  using assms
proof (induction "is" arbitrary: s evs)
  case Nil
  then show ?case by simp
next
  case (Cons i "is")
  from Cons.prems(2) obtain res where res: "child i = Some res" "result_sum res = g i" by auto
  from Cons.prems(1) res have "read_loop pipe child it is (s + g i) (evs @ [EvPipeRead it i, EvCloseRead it i])
      = Some (CB_OK, s', evs')"
    by (auto split: option.splits prod.splits if_splits)
  from Cons.IH[OF this] Cons.prems(2) show ?case by (simp add: add.assoc)
qed

lemma process_iteration_sum:
  fixes s :: "('l::len) word"
  assumes "process_iteration rnd pe ds cfg it = Some (Inr (s, e), evs)"
    and "1 \<le> num_processes cfg" and "0 \<le> array_length cfg"
    and "array_length cfg \<le> int (length ds)"
  shows "s = segment_sum ds 0 (array_length cfg)"
proof -
  define n where "n = num_processes cfg"
  define L where "L = array_length cfg"
  define b r where "b = L div n" and "r = L mod n"
  have n: "1 \<le> n" using assms(2) by (simp add: n_def)
  have b: "0 \<le> b" and r: "0 \<le> r" "r < n" and Leq: "L = n * b + r"
    using assms(3) n by (simp_all add: b_def r_def L_def pos_imp_zdiv_nonneg_iff)
  have sd: "L sdiv n = b" "L smod n = r"
    using assms(3) n by (simp_all add: b_def r_def L_def sdiv_nonneg smod_nonneg)
  obtain err spawned work evs1 where
    sl: "spawn_loop (pe_pipe_create pe it) (pe_spawn pe it) it b r [0..<nat n] 0 0 [] []
          = (err, spawned, work, evs1)"
    by (rule prod_cases4)
  let ?child = "child_result rnd (pe_child_clock pe it) ds work :: nat \<Rightarrow> 'l word cb_result_t option"
  from assms(1) have ok: "err = CB_OK"
    and "\<exists>evs2. read_loop (pe_pipe pe it) ?child it [0..<nat n] 0 evs1 = Some (CB_OK, s, evs2)"
    using n
    by (auto simp: process_iteration_def Let_def n_def[symmetric] L_def[symmetric] sd sl
        split: option.splits prod.splits if_splits)
  then obtain evs2 where
    rl: "read_loop (pe_pipe pe it) ?child it [0..<nat n] 0 evs1 = Some (CB_OK, s, evs2)" by blast
  have work: "work = map (\<lambda>i. slice_at b r (int i)) [0..<nat n]"
    using spawn_loop_ok[of "pe_pipe_create pe it" "pe_spawn pe it" it b r 0 "nat n" 0 0 "[]" "[]"
        spawned work evs1] sl ok r b
    by (simp add: slice_at_def)
  let ?g = "\<lambda>i. segment_sum ds (ws_start (slice_at b r (int i)))
            (ws_start (slice_at b r (int i)) + ws_length (slice_at b r (int i))) :: 'l word"
  have ch: "\<forall>i\<in>set [0..<nat n]. \<exists>res. ?child i = Some res \<and> result_sum res = ?g i"
  proof
    fix i assume "i \<in> set [0..<nat n]"
    then have i: "i < nat n" by simp
    have rd: "array_read work (int i) = Some (slice_at b r (int i))"
      using i n by (auto simp: array_read_def work)
    have "0 \<le> ws_start (slice_at b r (int i))"
      using b r by (simp add: slice_at_def)
    moreover have "ws_start (slice_at b r (int i)) + ws_length (slice_at b r (int i))
        = ws_start (slice_at b r (int i + 1))"
      using slice_at_next[OF r(1), of b "int i"] by simp
    moreover have "ws_start (slice_at b r (int i + 1)) \<le> ws_start (slice_at b r n)"
      using i b r by (intro slice_at_mono) auto
    moreover have "ws_start (slice_at b r n) = L"
      using r Leq by (simp add: slice_at_def min_def)
    ultimately have "0 \<le> ws_start (slice_at b r (int i))"
      and "ws_start (slice_at b r (int i)) + ws_length (slice_at b r (int i)) \<le> int (length ds)"
      using assms(4) by (simp_all add: L_def)
    from cb_array_sum_segment[OF this, of rnd "pe_child_clock pe it i", where 'a='l]
    show "\<exists>res. ?child i = Some res \<and> result_sum res = ?g i"
      by (simp add: child_result_def rd)
  qed
  from read_loop_ok[OF rl ch]
  have "s = (\<Sum>i\<leftarrow>[0..<nat n]. ?g i)" by simp
  also have "\<dots> = segment_sum ds 0 (int (nat n) * b + r)"
    using b r n by (intro slices_total) auto
  also have "\<dots> = segment_sum ds 0 L" using n Leq by simp
  finally show ?thesis by (simp add: L_def)
qed

lemma process_iteration_error:
  "process_iteration rnd pe ds cfg it = Some (Inl err, evs) \<Longrightarrow> err \<noteq> CB_OK"
  by (auto simp: process_iteration_def Let_def split: option.splits prod.splits if_splits)

lemma process_loop_unfold:
  "iter < iterations cfg \<Longrightarrow>
   process_loop rnd pe ds cfg iter v t tr =
     (case process_iteration rnd pe ds cfg (nat iter) of
        None \<Rightarrow> None
      | Some (Inl err, evs) \<Rightarrow> Some (Inl err, tr @ evs)
      | Some (Inr (iter_sum, elapsed), evs) \<Rightarrow>
          process_loop rnd pe ds cfg (iter + 1)
            (if iter = 0 then iter_sum else v)
            (t[nat iter := elapsed]) (tr @ evs))"
  by (subst process_loop.simps) (simp only: if_True)

lemma process_loop_cases:
  fixes v :: "('l::len) word"
  assumes "process_loop rnd pe ds cfg iter v t tr = Some (res, tr')" and "iter < iterations cfg"
  obtains (fail) err evs where
      "(process_iteration rnd pe ds cfg (nat iter) :: ((cb_error_t + 'l word \<times> real) \<times> proc_event list) option)
          = Some (Inl err, evs)"
      "res = Inl err" "tr' = tr @ evs"
    | (step) s e evs where
      "process_iteration rnd pe ds cfg (nat iter) = Some (Inr (s :: 'l word, e), evs)"
      "process_loop rnd pe ds cfg (iter + 1) (if iter = 0 then s else v) (t[nat iter := e]) (tr @ evs)
         = Some (res, tr')"
  using assms(1) unfolding process_loop_unfold[OF assms(2)]
  by (auto split: option.splits sum.splits prod.splits)

lemma process_loop_sum:
  "process_loop rnd pe ds cfg iter (v :: ('l::len) word) t tr = Some (Inr (v', t'), tr') \<Longrightarrow> 0 \<le> iter \<Longrightarrow>
   1 \<le> num_processes cfg \<Longrightarrow> 0 \<le> array_length cfg \<Longrightarrow> array_length cfg \<le> int (length ds) \<Longrightarrow>
   v' = (if iter = 0 \<and> 0 < iterations cfg then segment_sum ds 0 (array_length cfg) else v)"
proof (induction rnd pe ds cfg iter v t tr rule: process_loop.induct)
  case (1 rnd pe ds cfg iter v t tr)
  show ?case
  proof (cases "iter < iterations cfg")
    case False
    with 1(2) show ?thesis by (auto simp: process_loop.simps)
  next
    case True
    from 1(2) True show ?thesis
    proof (cases rule: process_loop_cases)
      case (fail err evs)
      then show ?thesis by simp
    next
      case (step s e evs)
      have s: "s = segment_sum ds 0 (array_length cfg)"
        using process_iteration_sum[OF step(1) 1(4,5,6)] .
      have "v' = (if iter + 1 = 0 \<and> 0 < iterations cfg then segment_sum ds 0 (array_length cfg)
                else (if iter = 0 then s else v))"
        using "1.IH"[OF True step(1) refl refl refl step(2)] 1(3,4,5,6) by simp
      then show ?thesis using 1(3) True s by (auto split: if_splits)
    qed
  qed
qed

lemma process_loop_error:
  "process_loop rnd pe ds cfg iter (v :: ('l::len) word) t tr = Some (Inl err, tr') \<Longrightarrow> err \<noteq> CB_OK"
proof (induction rnd pe ds cfg iter v t tr rule: process_loop.induct)
  case (1 rnd pe ds cfg iter v t tr)
  show ?case
  proof (cases "iter < iterations cfg")
    case False
    with 1(2) show ?thesis by (simp add: process_loop.simps)
  next
    case True
    from 1(2) True show ?thesis
    proof (cases rule: process_loop_cases)
      case (fail err' evs)
      then show ?thesis using process_iteration_error[OF fail(1)] by simp
    next
      case (step s e evs)
      from "1.IH"[OF True step(1) refl refl refl step(2)] show ?thesis .
    qed
  qed
qed

lemma process_run_sum:
  fixes r :: "('l::len) word cb_run_report_t"
  assumes "cb_bench_process_run rnd pe (Some ds) (Some cfg) (Some rep) = Some (CB_OK, Some r, tr)"
    and "1 \<le> num_processes cfg" and "0 \<le> array_length cfg"
    and "array_length cfg \<le> int (length ds)"
  shows "report_sum r = segment_sum ds 0 (array_length cfg)"
proof -
  from assms(1) obtain v t tr' where
    pl: "process_loop rnd pe ds cfg 0 0 (replicate (nat (iterations cfg)) 0) [] = Some (Inr (v, t), tr')"
    and fr: "finish_report rnd ''process'' (num_processes cfg) cfg rep v t = Some (CB_OK, Some r)"
    by (auto simp: cb_bench_process_run_def split: if_splits option.splits sum.splits prod.splits
        dest: process_loop_error)
  from finish_report_ok[OF fr] have "report_sum r = v" "1 \<le> iterations cfg" by simp_all
  with process_loop_sum[OF pl _ assms(2,3,4)] show ?thesis by simp
qed


lemmas eval_simps =
  example_dataset_def example_config_def report_zero_def stats_zero_def
  finish_report_def cb_stats_compute_def first_pass.simps second_pass.simps
  cb_array_sum_def array_sum_loop.simps array_read_def Let_def

lemma ex_single:
  "\<exists>r. cb_bench_single_run (\<lambda>x. x) example_single_env (Some example_dataset) (Some (example_config\<lparr>iterations := 2\<rparr>))
      (Some report_zero) = Some (CB_OK, Some r) \<and> report_sum r = 113"
  by (simp add: cb_bench_single_run_def example_single_env_def single_loop.simps eval_simps)

lemma ex_thread:
  "\<exists>r. cb_bench_thread_run (\<lambda>x. x) example_thread_env (Some example_dataset) (Some (example_config\<lparr>iterations := 2\<rparr>))
      (Some report_zero) = Some (CB_OK, Some r) \<and> report_sum r = 113"
  by (simp add: cb_bench_thread_run_def example_thread_env_def thread_loop.simps eval_simps
      thread_iteration_def partition_slices_def slice_loop.simps signed_divide_int_def signed_modulo_int_def
      upt_rec[of _ "numeral _"] upt_rec[of _ "nat _"] cb_array_sum_thread_fn_def critical_section_def shared_init_def
      sort_key_def)

lemma ex_process:
  "\<exists>r tr. cb_bench_process_run (\<lambda>x. x) example_process_env (Some example_dataset) (Some (example_config\<lparr>iterations := 2\<rparr>))
      (Some report_zero) = Some (CB_OK, Some r, tr) \<and> report_sum r = 113"
  by (simp add: cb_bench_process_run_def example_process_env_def process_loop.simps eval_simps
      process_iteration_def signed_divide_int_def signed_modulo_int_def
      upt_rec[of _ "numeral _"] upt_rec[of _ "nat _"] child_result_def
      cb_pipe_read_def pipe_read_loop.simps sys_read_def sizeof_cb_result_t_def)

text \<open>
  Baseline, Unix process coordinator and thread coordinator: on a dataset of
  \<open>array_length\<close> elements and with at least one process and one thread, whenever
  the three coordinators succeed their reported sums are equal, and
  equal to the sum of the whole array: the baseline sums \<open>[0, array_length)\<close> in one pass,
  the process coordinator adds the children's partial sums in worker order, the thread
  coordinator adds them in the order in which the threads take the lock. More generally,
  for any list of slices that partitions \<open>[0, array_length)\<close> contiguously, the partial
  sums of \<open>cb_array_sum\<close> add up to its result on the whole array.
\<close>

theorem cross_mode_sums:
  fixes r1 r2 r3 :: "('l::len) word cb_run_report_t"
  assumes "int (length ds) = array_length cfg"
    and "1 \<le> num_processes cfg" and "1 \<le> num_threads cfg"
    and "cb_bench_single_run rnd se (Some ds) (Some cfg) (Some rep1) = Some (CB_OK, Some r1)"
    and "cb_bench_process_run rnd pe (Some ds) (Some cfg) (Some rep2) = Some (CB_OK, Some r2, tr)"
    and "cb_bench_thread_run rnd te (Some ds) (Some cfg) (Some rep3) = Some (CB_OK, Some r3)"
  shows "report_sum r1 = sum_list (map word_of_int ds)
     \<and> report_sum r2 = report_sum r1 \<and> report_sum r3 = report_sum r1
     \<and> (\<forall>ss clock clk. contiguous_cover 0 (array_length cfg) ss \<longrightarrow>
           (sum_partials rnd clock ds 0 ss :: 'l word option)
             = map_option result_sum (cb_array_sum rnd clk ds 0 (array_length cfg)))"
proof -
  have L: "0 \<le> array_length cfg" "array_length cfg \<le> int (length ds)"
    using assms(1) by simp_all
  have full: "(segment_sum ds 0 (array_length cfg) :: 'l word) = sum_list (map word_of_int ds)"
    using segment_sum_full[of ds, where 'a='l] assms(1) by simp
  have 1: "report_sum r1 = segment_sum ds 0 (array_length cfg)"
    using single_run_sum[OF assms(4) L(2)] .
  have 2: "report_sum r2 = segment_sum ds 0 (array_length cfg)"
    using process_run_sum[OF assms(5,2) L] .
  have 3: "report_sum r3 = segment_sum ds 0 (array_length cfg)"
    using thread_run_sum[OF assms(6,3) L] .
  have 4: "(sum_partials rnd clock ds 0 ss :: 'l word option)
             = map_option result_sum (cb_array_sum rnd clk ds 0 (array_length cfg))"
    if "contiguous_cover 0 (array_length cfg) ss" for ss clock clk
    using sum_partials_cover[OF that _ L(2), of rnd clock 0, where 'l='l]
      cb_array_sum_segment[of 0 "array_length cfg" ds rnd clk, where 'a='l] L
    by simp
  from 1 2 3 4 full show ?thesis by simp
qed

theorem cross_mode_sums_witness:
  "int (length example_dataset) = array_length (example_config\<lparr>iterations := 2\<rparr>)
   \<and> 1 \<le> num_processes (example_config\<lparr>iterations := 2\<rparr>)
   \<and> 1 \<le> num_threads (example_config\<lparr>iterations := 2\<rparr>)
   \<and> (\<exists>r1 r2 r3 tr.
        cb_bench_single_run (\<lambda>x. x) example_single_env (Some example_dataset)
          (Some (example_config\<lparr>iterations := 2\<rparr>)) (Some report_zero) = Some (CB_OK, Some r1)
      \<and> cb_bench_process_run (\<lambda>x. x) example_process_env (Some example_dataset)
          (Some (example_config\<lparr>iterations := 2\<rparr>)) (Some report_zero) = Some (CB_OK, Some r2, tr)
      \<and> cb_bench_thread_run (\<lambda>x. x) example_thread_env (Some example_dataset)
          (Some (example_config\<lparr>iterations := 2\<rparr>)) (Some report_zero) = Some (CB_OK, Some r3)
      \<and> report_sum r1 = 113 \<and> report_sum r2 = report_sum r1 \<and> report_sum r3 = report_sum r1)
   \<and> contiguous_cover 0 (array_length (example_config\<lparr>iterations := 2\<rparr>))
        [\<lparr>ws_start = 0, ws_length = 1\<rparr>, \<lparr>ws_start = 1, ws_length = 3\<rparr>]
   \<and> sum_partials (\<lambda>x. x) (se_clock example_single_env) example_dataset 0
        [\<lparr>ws_start = 0, ws_length = 1\<rparr>, \<lparr>ws_start = 1, ws_length = 3\<rparr>] = Some (113 :: 64 word)"
proof -
  let ?cfg = "example_config\<lparr>iterations := 2\<rparr>"
  have h1: "int (length example_dataset) = array_length ?cfg"
    and h2: "1 \<le> num_processes ?cfg" and h3: "1 \<le> num_threads ?cfg"
    by (simp_all add: example_dataset_def example_config_def)
  from ex_single obtain r1 where
    s: "cb_bench_single_run (\<lambda>x. x) example_single_env (Some example_dataset) (Some ?cfg)
          (Some report_zero) = Some (CB_OK, Some r1)" and v: "report_sum r1 = 113" by blast
  from ex_process obtain r2 tr where
    p: "cb_bench_process_run (\<lambda>x. x) example_process_env (Some example_dataset) (Some ?cfg)
          (Some report_zero) = Some (CB_OK, Some r2, tr)" by blast
  from ex_thread obtain r3 where
    t: "cb_bench_thread_run (\<lambda>x. x) example_thread_env (Some example_dataset) (Some ?cfg)
          (Some report_zero) = Some (CB_OK, Some r3)" by blast
  have c: "contiguous_cover 0 (array_length ?cfg)
        [\<lparr>ws_start = 0, ws_length = 1\<rparr>, \<lparr>ws_start = 1, ws_length = 3\<rparr>]"
    by (simp add: example_config_def)
  have f: "map_option result_sum (cb_array_sum (\<lambda>x. x) (0, 0) example_dataset 0 (array_length ?cfg)
        :: 64 word cb_result_t option) = Some 113"
    by (simp add: eval_simps)
  note inst = cross_mode_sums [OF h1 h2 h3 s p t]
  from inst have e: "report_sum r2 = report_sum r1" "report_sum r3 = report_sum r1" by simp_all
  from inst c have "(sum_partials (\<lambda>x. x) (se_clock example_single_env) example_dataset 0
        [\<lparr>ws_start = 0, ws_length = 1\<rparr>, \<lparr>ws_start = 1, ws_length = 3\<rparr>] :: 64 word option)
      = map_option result_sum (cb_array_sum (\<lambda>x. x) (0, 0) example_dataset 0 (array_length ?cfg))"
    by blast
  with f have sp: "sum_partials (\<lambda>x. x) (se_clock example_single_env) example_dataset 0
        [\<lparr>ws_start = 0, ws_length = 1\<rparr>, \<lparr>ws_start = 1, ws_length = 3\<rparr>] = Some (113 :: 64 word)"
    by simp
  from h1 h2 h3 s p t v e c sp show ?thesis by blast
qed

section \<open>Teardown of the process coordinator\<close>

subsection \<open>Unix\<close>

lemma spawned_in_append [simp]: "spawned_in it (xs @ ys) = spawned_in it xs @ spawned_in it ys"
  by (induction it xs rule: spawned_in.induct) auto

lemma spawned_in_other: "\<forall>x\<in>set evs. event_iter x \<noteq> it \<Longrightarrow> spawned_in it evs = []"
  by (induction it evs rule: spawned_in.induct) auto

lemma cleanup_children_iter: "\<forall>x\<in>set (cleanup_children it m). event_iter x = it"
  by (induction m) (auto simp: cleanup_children_def)

lemma cleanup_children_no_failure: "filter is_failure (cleanup_children it m) = []"
  by (induction m) (auto simp: cleanup_children_def)

lemma cleanup_children_no_spawn: "spawned_in it' (cleanup_children it m) = []"
  by (induction m) (auto simp: cleanup_children_def)

lemmas cleanup_children_props =
  cleanup_children_iter cleanup_children_no_failure cleanup_children_no_spawn






lemma torn_down_prepend:
  assumes "torn_down failed err it new" and "filter is_failure evs = []"
    and "\<forall>x\<in>set evs. event_iter x \<noteq> it"
  shows "torn_down failed err it (evs @ new)"
proof -
  from assms(1) obtain f pre m where t: "filter is_failure new = [f]" "failed f = Some err"
    "event_iter f = it" "new = pre @ cleanup_children it m" "spawned_in it pre = [0..<m]"
    "\<forall>k. spawn_phase_failure f = Some k \<longrightarrow> m = k"
    unfolding torn_down_def by blast
  have "spawned_in it (evs @ pre) = [0..<m]"
    using spawned_in_other[OF assms(3)] t(5) by simp
  with t assms(2) show ?thesis unfolding torn_down_def
    by (intro exI[of _ f] exI[of _ "evs @ pre"] exI[of _ m]) simp
qed





subsection \<open>Windows\<close>

lemma slice_offset_Suc:
  "slice_offset b r (Suc k) = slice_offset b r k + (b + (if int k < r then 1 else 0))"
  by (simp add: slice_offset_def)

lemma spawn_win_not_ok: "cb_process_spawn_win c a \<noteq> Inl CB_OK"
  by (simp add: cb_process_spawn_win_def split: option.splits)

lemma win_spawn_trace:
  "win_spawn_loop sp it b r [k..<n] off spawned cmds evs = (err, sp', cmds', evs') \<Longrightarrow>
   off = slice_offset b r k \<Longrightarrow> (\<And>i x y. sp i x y \<noteq> Inl CB_OK) \<Longrightarrow>
   \<exists>new m. evs' = evs @ new \<and> sp' = spawned + m
     \<and> (\<forall>x\<in>set new. event_iter x = it)
     \<and> spawned_in it new = [k..<k + m]
     \<and> filter is_kill new = []
     \<and> (err = CB_OK \<longrightarrow> new = map (EvSpawn it) [k..<n] \<and> m = n - k)
     \<and> (err \<noteq> CB_OK \<longrightarrow> filter is_failure new = [EvSpawnFailed it (k + m)]
           \<and> sp (k + m) (slice_offset b r (k + m)) (b + (if int (k + m) < r then 1 else 0)) = Inl err)"
proof (induction "n - k" arbitrary: k off spawned cmds evs)
  case 0
  then have "[k..<n] = []" by simp
  with 0(2) show ?case by (intro exI[of _ "[]"] exI[of _ 0]) auto
next
  case (Suc d)
  then have kn: "k < n" and d: "d = n - Suc k" by simp_all
  have upt: "[k..<n] = k # [Suc k..<n]" using kn by (simp add: upt_conv_Cons)
  let ?chunk = "b + (if int k < r then 1 else 0)"
  show ?case
  proof (cases "sp k off ?chunk")
    case (Inl e)
    with Suc.prems(1) have "err = e" "sp' = spawned" "evs' = evs @ [EvSpawnFailed it k]"
      unfolding upt by (simp_all add: Let_def)
    moreover have "e \<noteq> CB_OK" using Inl Suc.prems(3)[of k off ?chunk] by auto
    ultimately show ?thesis using Inl Suc.prems(2)
      by (intro exI[of _ "[EvSpawnFailed it k]"] exI[of _ 0]) simp
  next
    case (Inr c)
    with Suc.prems(1)
    have rec: "win_spawn_loop sp it b r [Suc k..<n] (off + ?chunk) (spawned + 1) (cmds @ [c])
        (evs @ [EvSpawn it k]) = (err, sp', cmds', evs')"
      unfolding upt by (simp add: Let_def)
    have off': "off + ?chunk = slice_offset b r (Suc k)"
      using Suc.prems(2) by (simp add: slice_offset_Suc)
    from Suc.hyps(1)[OF d rec off' Suc.prems(3)]
    obtain new m where ih: "evs' = (evs @ [EvSpawn it k]) @ new" "sp' = spawned + 1 + m"
      "\<forall>x\<in>set new. event_iter x = it" "spawned_in it new = [Suc k..<Suc k + m]"
      "filter is_kill new = []"
      "err = CB_OK \<longrightarrow> new = map (EvSpawn it) [Suc k..<n] \<and> m = n - Suc k"
      "err \<noteq> CB_OK \<longrightarrow> filter is_failure new = [EvSpawnFailed it (Suc k + m)]
           \<and> sp (Suc k + m) (slice_offset b r (Suc k + m))
                 (b + (if int (Suc k + m) < r then 1 else 0)) = Inl err"
      by blast
    have upt2: "[k..<k + Suc m] = k # [Suc k..<Suc k + m]" by (simp add: upt_conv_Cons)
    show ?thesis
      using ih upt2 upt kn by (intro exI[of _ "[EvSpawn it k] @ new"] exI[of _ "Suc m"]) auto
  qed
qed

lemma win_wait_trace:
  "win_wait_loop wait it is err evs = (err', evs') \<Longrightarrow> evs' = evs @ map (EvWait it) is"
proof (induction "is" arbitrary: err evs)
  case Nil
  then show ?case by simp
next
  case (Cons i "is")
  from Cons.prems obtain err1 where
    "win_wait_loop wait it is err1 (evs @ [EvWait it i]) = (err', evs')"
    by (auto split: sum.splits)
  from Cons.IH[OF this] show ?case by simp
qed

lemma win_wait_loop_err:
  "win_wait_loop wait it is err evs = (err', evs') \<Longrightarrow>
   (\<And>i e. wait i = Inl e \<Longrightarrow> e = CB_ERR_PLATFORM) \<Longrightarrow>
   err' = err \<or> err' = CB_ERR_PLATFORM"
proof (induction "is" arbitrary: err evs)
  case Nil
  then show ?case by simp
next
  case (Cons i "is")
  show ?case
  proof (cases "wait i")
    case (Inl e)
    with Cons.prems(1)
    have "win_wait_loop wait it is (if err = CB_OK then e else err) (evs @ [EvWait it i]) = (err', evs')"
      by simp
    from Cons.IH[OF this Cons.prems(2)] Cons.prems(2)[OF Inl] show ?thesis
      by (auto split: if_splits)
  next
    case (Inr st)
    with Cons.prems(1)
    have "win_wait_loop wait it is (if st \<noteq> 0 \<and> err = CB_OK then CB_ERR_PLATFORM else err)
        (evs @ [EvWait it i]) = (err', evs')"
      by simp
    from Cons.IH[OF this Cons.prems(2)] show ?thesis by (auto split: if_splits)
  qed
qed

lemma spawned_in_spawns: "spawned_in it (map (EvSpawn it) is) = is"
  by (induction "is") auto

lemma spawned_in_waits [simp]: "spawned_in it (map (EvWait j) is) = []"
  by (induction "is") auto

lemma no_failure_spawns [simp]: "filter is_failure (map (EvSpawn it) is) = []"
  by (induction "is") auto

lemma no_failure_waits [simp]: "filter is_failure (map (EvWait it) is) = []"
  by (induction "is") auto

lemma no_kill_waits [simp]: "filter is_kill (map (EvWait it) is) = []"
  by (induction "is") auto

lemma win_process_iteration_trace:
  fixes res :: "cb_error_t + ('l::len) word \<times> real"
  assumes "win_process_iteration rnd env exe data cfg it = Some (res, evs)"
    and "we_exe_path env = Some exe"
  shows "(\<forall>x\<in>set evs. event_iter x = it)
     \<and> (case res of
           Inr _ \<Rightarrow> filter is_failure evs = [] \<and> filter is_kill evs = []
         | Inl err \<Rightarrow> err \<noteq> CB_OK
             \<and> (torn_down (win_failed_call env cfg) err it evs
                  \<or> waited_out it evs \<and> err = CB_ERR_PLATFORM))"
proof -
  define n where "n = num_processes cfg"
  define b r where "b = array_length cfg sdiv n" and "r = array_length cfg smod n"
  obtain e1 spawned cmds evs1 where
    sl: "win_spawn_loop (win_spawn_call env exe cfg it) it b r [0..<nat n] 0 0 [] []
          = (e1, spawned, cmds, evs1)"
    by (rule prod_cases4)
  have nok: "\<And>i x y. win_spawn_call env exe cfg it i x y \<noteq> Inl CB_OK"
    by (simp add: win_spawn_call_def spawn_win_not_ok)
  have off0: "0 = slice_offset b r 0" by (simp add: slice_offset_def)
  from win_spawn_trace[OF sl off0 nok] obtain m where st: "spawned = m"
    "\<forall>x\<in>set evs1. event_iter x = it" "spawned_in it evs1 = [0..<m]"
    "filter is_kill evs1 = []"
    "e1 = CB_OK \<longrightarrow> evs1 = map (EvSpawn it) [0..<nat n] \<and> m = nat n"
    "e1 \<noteq> CB_OK \<longrightarrow> filter is_failure evs1 = [EvSpawnFailed it m]
       \<and> win_spawn_call env exe cfg it m (slice_offset b r m) (b + (if int m < r then 1 else 0)) = Inl e1"
    by auto
  note cl = cleanup_children_iter[of it m] cleanup_children_no_failure[of it m]
    cleanup_children_no_spawn[of it it m]
  show ?thesis
  proof (cases "e1 = CB_OK")
    case False
    with assms have res: "res = Inl e1" and evs: "evs = evs1 @ cleanup_children it m"
      by (auto simp: win_process_iteration_def Let_def n_def[symmetric] b_def[symmetric]
          r_def[symmetric] sl st(1) split: if_splits)
    from st(6) False have f: "filter is_failure evs1 = [EvSpawnFailed it m]"
      "win_spawn_call env exe cfg it m (slice_offset b r m) (b + (if int m < r then 1 else 0)) = Inl e1"
      by simp_all
    have fc: "win_failed_call env cfg (EvSpawnFailed it m) = Some e1"
      using f(2) assms(2) by (simp add: Let_def n_def[symmetric] b_def[symmetric] r_def[symmetric])
    have "torn_down (win_failed_call env cfg) e1 it evs" unfolding torn_down_def
      using f(1) fc by (intro exI[of _ "EvSpawnFailed it m"] exI[of _ evs1] exI[of _ m])
        (simp add: evs cl st(3))
    then show ?thesis using False st(2) cl by (auto simp: res evs)
  next
    case ok1: True
    from assms ok1 obtain outs :: "(int \<times> (nat \<times> 'l word cb_result_t) option) list" and e3 evs3 where
      wl: "win_wait_loop (\<lambda>i. cb_process_wait_win (we_wait_ok env it i)
             (we_exit_code_ok env it i) (fst (outs ! i))) it [0..<spawned] CB_OK evs1 = (e3, evs3)"
      and evs: "evs = evs3"
      and res: "(e3 \<noteq> CB_OK \<and> res = Inl e3) \<or> (e3 = CB_OK \<and> (\<exists>v. res = Inr v))"
      by (auto simp: win_process_iteration_def Let_def n_def[symmetric] b_def[symmetric]
          r_def[symmetric] sl split: if_splits option.splits prod.splits)
    from win_wait_trace[OF wl] have e3: "evs3 = evs1 @ map (EvWait it) [0..<m]"
      by (simp add: st(1))
    from st(5) ok1 have e1: "evs1 = map (EvSpawn it) [0..<nat n]" by simp
    have nf: "filter is_failure evs = []" and nk: "filter is_kill evs = []"
      and it: "\<forall>x\<in>set evs. event_iter x = it"
      using st(2,4) by (auto simp: evs e3 e1)
    have wo: "waited_out it evs" unfolding waited_out_def
      using nf nk st(3) by (intro exI[of _ evs1] exI[of _ m]) (simp add: evs e3)
    have "\<And>i e. cb_process_wait_win (we_wait_ok env it i) (we_exit_code_ok env it i)
        (fst (outs ! i)) = Inl e \<Longrightarrow> e = CB_ERR_PLATFORM"
      by (simp add: cb_process_wait_win_def split: if_splits)
    from win_wait_loop_err[OF wl this] have pf: "e3 = CB_OK \<or> e3 = CB_ERR_PLATFORM" by simp
    from res show ?thesis using nf nk it wo pf by auto
  qed
qed

lemma waited_out_prepend:
  assumes "waited_out it new" and "filter is_failure evs = []" and "filter is_kill evs = []"
    and "\<forall>x\<in>set evs. event_iter x \<noteq> it"
  shows "waited_out it (evs @ new)"
proof -
  from assms(1) obtain pre m where t: "new = pre @ map (EvWait it) [0..<m]"
    "spawned_in it pre = [0..<m]" "filter is_failure new = []" "filter is_kill new = []"
    unfolding waited_out_def by blast
  have "spawned_in it (evs @ pre) = [0..<m]"
    using spawned_in_other[OF assms(4)] t(2) by simp
  with t assms(2,3) show ?thesis unfolding waited_out_def
    by (intro exI[of _ "evs @ pre"] exI[of _ m]) simp
qed

lemma win_process_loop_unfold:
  "iter < iterations cfg \<Longrightarrow>
   win_process_loop rnd env exe ds cfg iter v t tr =
     (case win_process_iteration rnd env exe ds cfg (nat iter) of
        None \<Rightarrow> None
      | Some (Inl err, evs) \<Rightarrow> Some (Inl err, tr @ evs)
      | Some (Inr (iter_sum, elapsed), evs) \<Rightarrow>
          win_process_loop rnd env exe ds cfg (iter + 1)
            (if iter = 0 then iter_sum else v)
            (t[nat iter := elapsed]) (tr @ evs))"
  by (subst win_process_loop.simps) (simp only: if_True)

lemma win_process_loop_cases:
  fixes v :: "('l::len) word"
  assumes "win_process_loop rnd env exe ds cfg iter v t tr = Some (res, tr')" and "iter < iterations cfg"
  obtains (fail) err evs where
      "(win_process_iteration rnd env exe ds cfg (nat iter) :: ((cb_error_t + 'l word \<times> real) \<times> proc_event list) option)
          = Some (Inl err, evs)"
      "res = Inl err" "tr' = tr @ evs"
    | (step) s e evs where
      "win_process_iteration rnd env exe ds cfg (nat iter) = Some (Inr (s :: 'l word, e), evs)"
      "win_process_loop rnd env exe ds cfg (iter + 1) (if iter = 0 then s else v) (t[nat iter := e]) (tr @ evs)
         = Some (res, tr')"
  using assms(1) unfolding win_process_loop_unfold[OF assms(2)]
  by (auto split: option.splits sum.splits prod.splits)

lemma win_process_loop_trace:
  "win_process_loop rnd env exe ds cfg iter (v :: ('l::len) word) t tr = Some (res, tr') \<Longrightarrow>
   0 \<le> iter \<Longrightarrow> we_exe_path env = Some exe \<Longrightarrow>
   \<exists>new. tr' = tr @ new \<and> (\<forall>x\<in>set new. nat iter \<le> event_iter x)
     \<and> (case res of
           Inr _ \<Rightarrow> filter is_failure new = [] \<and> filter is_kill new = []
             \<and> (new \<noteq> [] \<longrightarrow> 0 < iterations cfg)
         | Inl err \<Rightarrow> err \<noteq> CB_OK
             \<and> (\<exists>it. nat iter \<le> it
                   \<and> (torn_down (win_failed_call env cfg) err it new
                        \<or> waited_out it new \<and> err = CB_ERR_PLATFORM)
                   \<and> (\<forall>x\<in>set new. event_iter x \<le> it)))"
proof (induction rnd env exe ds cfg iter v t tr rule: win_process_loop.induct)
  case (1 rnd env exe ds cfg iter v t tr)
  show ?case
  proof (cases "iter < iterations cfg")
    case False
    with 1(2) show ?thesis by (auto simp: win_process_loop.simps)
  next
    case True
    from 1(2) True show ?thesis
    proof (cases rule: win_process_loop_cases)
      case (fail err evs)
      from win_process_iteration_trace[OF fail(1) 1(4)]
      have it: "\<forall>x\<in>set evs. event_iter x = nat iter" and ne: "err \<noteq> CB_OK"
        and c: "torn_down (win_failed_call env cfg) err (nat iter) evs
                \<or> waited_out (nat iter) evs \<and> err = CB_ERR_PLATFORM"
        by simp_all
      from c it have "\<exists>it. nat iter \<le> it
          \<and> (torn_down (win_failed_call env cfg) err it evs
                \<or> waited_out it evs \<and> err = CB_ERR_PLATFORM)
          \<and> (\<forall>x\<in>set evs. event_iter x \<le> it)"
        by (intro exI[of _ "nat iter"]) simp
      with it ne fail(2,3) show ?thesis by (intro exI[of _ evs]) simp
    next
      case (step s e evs)
      from win_process_iteration_trace[OF step(1) 1(4)]
      have it: "\<forall>x\<in>set evs. event_iter x = nat iter" and nf: "filter is_failure evs = []"
        and nk: "filter is_kill evs = []"
        by simp_all
      have i1: "0 \<le> iter + 1" using 1(3) by simp
      from "1.IH"[OF True step(1) refl refl refl step(2) i1 1(4)]
      obtain new where ih: "tr' = (tr @ evs) @ new" "\<forall>x\<in>set new. nat (iter + 1) \<le> event_iter x"
        "case res of
           Inr _ \<Rightarrow> filter is_failure new = [] \<and> filter is_kill new = []
             \<and> (new \<noteq> [] \<longrightarrow> 0 < iterations cfg)
         | Inl err \<Rightarrow> err \<noteq> CB_OK
             \<and> (\<exists>it. nat (iter + 1) \<le> it
                   \<and> (torn_down (win_failed_call env cfg) err it new
                        \<or> waited_out it new \<and> err = CB_ERR_PLATFORM)
                   \<and> (\<forall>x\<in>set new. event_iter x \<le> it))"
        by blast
      have lt: "nat iter < nat (iter + 1)" using 1(3) by simp
      have pos: "0 < iterations cfg" using True 1(3) by simp
      have ge: "\<forall>x\<in>set (evs @ new). nat iter \<le> event_iter x"
        using it ih(2) lt by fastforce
      have c: "case res of
           Inr _ \<Rightarrow> filter is_failure (evs @ new) = [] \<and> filter is_kill (evs @ new) = []
             \<and> (evs @ new \<noteq> [] \<longrightarrow> 0 < iterations cfg)
         | Inl err \<Rightarrow> err \<noteq> CB_OK
             \<and> (\<exists>it. nat iter \<le> it
                   \<and> (torn_down (win_failed_call env cfg) err it (evs @ new)
                        \<or> waited_out it (evs @ new) \<and> err = CB_ERR_PLATFORM)
                   \<and> (\<forall>x\<in>set (evs @ new). event_iter x \<le> it))"
      proof (cases res)
        case (Inr a)
        with ih(3) nf nk pos show ?thesis by simp
      next
        case (Inl err)
        with ih(3) obtain j where ne: "err \<noteq> CB_OK" and jge: "nat (iter + 1) \<le> j"
          and d: "torn_down (win_failed_call env cfg) err j new
                  \<or> waited_out j new \<and> err = CB_ERR_PLATFORM"
          and j: "\<forall>x\<in>set new. event_iter x \<le> j"
          by auto
        from jge lt it have ne_j: "\<forall>x\<in>set evs. event_iter x \<noteq> j"
          and le_j: "\<forall>x\<in>set evs. event_iter x \<le> j" and ij: "nat iter \<le> j"
          by auto
        from d have "torn_down (win_failed_call env cfg) err j (evs @ new)
            \<or> waited_out j (evs @ new) \<and> err = CB_ERR_PLATFORM"
        proof
          assume "torn_down (win_failed_call env cfg) err j new"
          from torn_down_prepend[OF this nf ne_j] show ?thesis ..
        next
          assume w: "waited_out j new \<and> err = CB_ERR_PLATFORM"
          from waited_out_prepend[OF w[THEN conjunct1] nf nk ne_j] w show ?thesis by simp
        qed
        moreover have "\<forall>x\<in>set (evs @ new). event_iter x \<le> j" using le_j j by auto
        ultimately show ?thesis using ne Inl ij by auto
      qed
      from ih(1) ge c show ?thesis by (intro exI[of _ "evs @ new"]) simp
    qed
  qed
qed





lemmas win_eval_simps =
  cb_bench_process_run_win_def win_process_loop.simps win_process_iteration_def
  win_spawn_call_def cb_process_spawn_win_def win_child_argv_def win_shm_name_def
  cb_process_wait_win_def main_win_child_def cb_bench_process_worker_main_def
  cb_parse_args_def parse_loop.simps example_libc_def
  example_win_env_def dec_int_def dec_nat.simps[of "numeral _"] dec_nat.simps[of 0]
  dec_nat.simps[of 1] dec_nat.simps[of "Suc _"] signed_divide_int_def signed_modulo_int_def
  upt_rec[of _ "numeral _"] upt_rec[of _ "nat _"] cleanup_children_def

lemma replicate_3: "replicate 3 x = [x, x, x]"
  by (simp add: numeral_3_eq_3)

lemma example_win_run:
  "cb_bench_process_run_win (\<lambda>x. x) example_win_env (Some example_dataset)
      (Some (example_config\<lparr>num_processes := 3, iterations := 2\<rparr>)) (Some report_zero)
   = Some (CB_OK,
       Some \<lparr>label = ''process'', report_sum = 113, parallelism = 3,
             stats = \<lparr>min_sec = 1 / 2, max_sec = 1 / 2, mean_sec = 1 / 2, stddev_sec = 0,
                      stats_iterations = 2\<rparr>\<rparr>,
       [EvSpawn 0 0, EvSpawn 0 1, EvSpawn 0 2, EvWait 0 0, EvWait 0 1, EvWait 0 2,
        EvSpawn 1 0, EvSpawn 1 1, EvSpawn 1 2, EvWait 1 0, EvWait 1 1, EvWait 1 2])"
  by (simp add: win_eval_simps eval_simps replicate_3)

lemma example_blank_path_run:
  "cb_bench_process_run_win (\<lambda>x. x) blank_path_win_env (Some example_dataset)
      (Some (example_config\<lparr>num_processes := 3, iterations := 2\<rparr>)) (Some report_zero)
   = Some (CB_OK,
       Some \<lparr>label = ''process'', report_sum = 0, parallelism = 3,
             stats = \<lparr>min_sec = 1 / 2, max_sec = 1 / 2, mean_sec = 1 / 2, stddev_sec = 0,
                      stats_iterations = 2\<rparr>\<rparr>,
       [EvSpawn 0 0, EvSpawn 0 1, EvSpawn 0 2, EvWait 0 0, EvWait 0 1, EvWait 0 2,
        EvSpawn 1 0, EvSpawn 1 1, EvSpawn 1 2, EvWait 1 0, EvWait 1 1, EvWait 1 2])"
  by (simp add: blank_path_win_env_def win_eval_simps eval_simps)



subsection \<open>The teardown theorem\<close>




section \<open>Sum of the Windows process coordinator\<close>

lemma win_spawn_loop_ok:
  "win_spawn_loop sp it b r [k..<n] off spawned cmds evs = (CB_OK, sp', cmds', evs') \<Longrightarrow>
   (\<And>i x y. sp i x y \<noteq> Inl CB_OK) \<Longrightarrow>
   off = ws_start (slice_at b r (int k)) \<Longrightarrow> 0 \<le> r \<Longrightarrow>
   sp' = spawned + (n - k)
   \<and> cmds' = cmds @ map (\<lambda>i. projr (sp i (ws_start (slice_at b r (int i)))
                                        (ws_length (slice_at b r (int i))))) [k..<n]
   \<and> (\<forall>i\<in>set [k..<n]. \<exists>c. sp i (ws_start (slice_at b r (int i)))
                                  (ws_length (slice_at b r (int i))) = Inr c)"
proof (induction "n - k" arbitrary: k off spawned cmds evs)
  case 0
  then show ?case by simp
next
  case (Suc m)
  then have kn: "k < n" and m: "m = n - Suc k" by simp_all
  have upt: "[k..<n] = k # [Suc k..<n]" using kn by (simp add: upt_conv_Cons)
  let ?chunk = "b + (if int k < r then 1 else 0)"
  have w: "ws_start (slice_at b r (int k)) = off" "ws_length (slice_at b r (int k)) = ?chunk"
    using Suc.prems(3) by (simp_all add: slice_at_def)
  show ?case
  proof (cases "sp k off ?chunk")
    case (Inl e)
    with Suc.prems(1) have "e = CB_OK" unfolding upt by (simp add: Let_def)
    with Inl Suc.prems(2)[of k off ?chunk] show ?thesis by simp
  next
    case (Inr c)
    with Suc.prems(1)
    have rec: "win_spawn_loop sp it b r [Suc k..<n] (off + ?chunk) (spawned + 1) (cmds @ [c])
        (evs @ [EvSpawn it k]) = (CB_OK, sp', cmds', evs')"
      unfolding upt by (simp add: Let_def)
    have off': "off + ?chunk = ws_start (slice_at b r (int (Suc k)))"
      using slice_at_next[OF Suc.prems(4), of b "int k"] Suc.prems(3)
      by (simp add: slice_at_def add.commute)
    from Suc.hyps(1)[OF m rec Suc.prems(2) off' Suc.prems(4)]
    show ?thesis using kn Inr w by (simp add: upt)
  qed
qed

lemma run_children_nth:
  "run_children child is = Some outs \<Longrightarrow>
   length outs = length is \<and> (\<forall>j<length is. child (is ! j) = Some (outs ! j))"
proof (induction "is" arbitrary: outs)
  case Nil
  then show ?case by simp
next
  case (Cons i "is")
  from Cons.prems obtain x xs where x: "child i = Some x" "run_children child is = Some xs"
    "outs = x # xs"
    by (auto split: option.splits)
  from Cons.IH[OF x(2)] have ih: "length xs = length is" "\<forall>j<length is. child (is ! j) = Some (xs ! j)"
    by simp_all
  show ?case
  proof (intro conjI allI impI)
    show "length outs = length (i # is)" using ih(1) x(3) by simp
  next
    fix j assume "j < length (i # is)"
    then show "child ((i # is) ! j) = Some (outs ! j)"
      using ih(2) x(1,3) by (cases j) auto
  qed
qed

lemma win_wait_loop_ok:
  "win_wait_loop wait it is err evs = (CB_OK, evs') \<Longrightarrow> (\<And>i. wait i \<noteq> Inl CB_OK) \<Longrightarrow>
   err = CB_OK \<and> (\<forall>i\<in>set is. wait i = Inr 0)"
proof (induction "is" arbitrary: err evs)
  case Nil
  then show ?case by simp
next
  case (Cons i "is")
  show ?case
  proof (cases "wait i")
    case (Inl e)
    with Cons.prems(1)
    have "win_wait_loop wait it is (if err = CB_OK then e else err) (evs @ [EvWait it i]) = (CB_OK, evs')"
      by simp
    from Cons.IH[OF this Cons.prems(2)] have "(if err = CB_OK then e else err) = CB_OK" by simp
    with Inl Cons.prems(2)[of i] show ?thesis by (auto split: if_splits)
  next
    case (Inr st)
    with Cons.prems(1)
    have "win_wait_loop wait it is (if st \<noteq> 0 \<and> err = CB_OK then CB_ERR_PLATFORM else err)
        (evs @ [EvWait it i]) = (CB_OK, evs')"
      by simp
    from Cons.IH[OF this Cons.prems(2)]
    have "(if st \<noteq> 0 \<and> err = CB_OK then CB_ERR_PLATFORM else err) = CB_OK"
      and "\<forall>i\<in>set is. wait i = Inr 0" by simp_all
    with Inr show ?thesis by (auto split: if_splits)
  qed
qed

lemma write_slots_from:
  "k \<le> n \<Longrightarrow> length slots = n \<Longrightarrow>
   write_slots (map (\<lambda>i. Some (i, f i)) [k..<n]) slots = take k slots @ map f [k..<n]"
proof (induction "n - k" arbitrary: k slots)
  case 0
  then show ?case by simp
next
  case (Suc m)
  then have kn: "k < n" and m: "m = n - Suc k" by simp_all
  have upt: "[k..<n] = k # [Suc k..<n]" using kn by (simp add: upt_conv_Cons)
  have "write_slots (map (\<lambda>i. Some (i, f i)) [k..<n]) slots
      = write_slots (map (\<lambda>i. Some (i, f i)) [Suc k..<n]) (slots[k := f k])"
    by (simp add: upt)
  also have "\<dots> = take (Suc k) (slots[k := f k]) @ map f [Suc k..<n]"
    using Suc.hyps(1)[OF m, of "slots[k := f k]"] kn Suc.prems(2) by simp
  also have "take (Suc k) (slots[k := f k]) = take k slots @ [f k]"
    using kn Suc.prems(2) by (simp add: take_Suc_conv_app_nth)
  finally show ?case by (simp add: upt)
qed

lemma slot_loop_sum:
  "slot_loop slots is s = s + (\<Sum>i\<leftarrow>is. result_sum (slots ! i))"
  by (induction "is" arbitrary: s) (simp_all add: add.assoc)

lemma worker_main_exit_0:
  fixes w :: "(nat \<times> ('l::len) word cb_result_t) option"
  assumes "cb_bench_process_worker_main rnd shm_open clk name data n wa = Some (0, w)"
  shows "\<exists>res. cb_array_sum rnd clk data (worker_start wa) (worker_length wa) = Some res
           \<and> w = Some (nat (worker_id wa), res)"
  using assms
  by (auto simp: cb_bench_process_worker_main_def split: if_splits option.splits)

lemma win_process_iteration_sum:
  fixes s :: "('l::len) word"
  assumes "win_process_iteration rnd env exe data cfg it = Some (Inr (s, e), evs)"
    and "1 \<le> num_processes cfg" and "array_length cfg = int (length data)"
    and "worker_args_round_trip env exe cfg"
  shows "s = segment_sum data 0 (array_length cfg)"
proof -
  define n where "n = num_processes cfg"
  define L where "L = array_length cfg"
  define b r where "b = L div n" and "r = L mod n"
  have n: "1 \<le> n" using assms(2) by (simp add: n_def)
  have L0: "0 \<le> L" using assms(3) by (simp add: L_def)
  have b: "0 \<le> b" and r: "0 \<le> r" "r < n" and Leq: "L = n * b + r"
    using L0 n by (simp_all add: b_def r_def pos_imp_zdiv_nonneg_iff)
  have sd: "L sdiv n = b" "L smod n = r"
    using L0 n by (simp_all add: b_def r_def sdiv_nonneg smod_nonneg)
  let ?st = "\<lambda>i. ws_start (slice_at b r (int i))"
  let ?ln = "\<lambda>i. ws_length (slice_at b r (int i))"
  let ?sp = "win_spawn_call env exe cfg it"
  obtain err spawned cmds evs1 where
    sl: "win_spawn_loop ?sp it b r [0..<nat n] 0 0 [] [] = (err, spawned, cmds, evs1)"
    by (rule prod_cases4)
  let ?child = "\<lambda>i. main_win_child (we_libc env) rnd (we_shm_open env it i) (we_child_clock env it i)
      (win_shm_name env) data n (we_argv_of env (cmds ! i))
      :: (int \<times> (nat \<times> 'l word cb_result_t) option) option"
  from assms(1) n obtain outs evs2 where ok: "err = CB_OK"
    and rc: "run_children ?child [0..<spawned] = Some outs"
    and wl: "win_wait_loop (\<lambda>i. cb_process_wait_win (we_wait_ok env it i)
               (we_exit_code_ok env it i) (fst (outs ! i))) it [0..<spawned] CB_OK evs1 = (CB_OK, evs2)"
    and s: "s = slot_loop (write_slots (map snd outs)
                 (replicate (nat n) \<lparr>result_sum = 0, elapsed_sec = 0\<rparr>)) [0..<nat n] 0"
    by (auto simp: win_process_iteration_def Let_def n_def[symmetric] L_def[symmetric] sd sl
        split: option.splits prod.splits if_splits)
  have nok: "\<And>i x y. ?sp i x y \<noteq> Inl CB_OK"
    by (simp add: win_spawn_call_def spawn_win_not_ok)
  have st0: "0 = ws_start (slice_at b r (int 0))" by (simp add: slice_at_def r)
  from win_spawn_loop_ok[OF sl[unfolded ok] nok st0 r(1)]
  have sp: "spawned = nat n"
    and cmds: "cmds = map (\<lambda>i. projr (?sp i (?st i) (?ln i))) [0..<nat n]"
    and inr: "\<forall>i\<in>set [0..<nat n]. \<exists>c. ?sp i (?st i) (?ln i) = Inr c"
    by simp_all
  from run_children_nth[OF rc] sp have len: "length outs = nat n"
    and ch: "\<And>i. i < nat n \<Longrightarrow> ?child i = Some (outs ! i)"
    by simp_all
  have wnok: "\<And>i. cb_process_wait_win (we_wait_ok env it i) (we_exit_code_ok env it i)
      (fst (outs ! i)) \<noteq> Inl CB_OK"
    by (simp add: cb_process_wait_win_def)
  from win_wait_loop_ok[OF wl wnok] sp
  have ex0: "\<And>i. i < nat n \<Longrightarrow> fst (outs ! i) = 0"
    by (auto simp: cb_process_wait_win_def split: if_splits)
  let ?f = "\<lambda>i. the (cb_array_sum rnd (we_child_clock env it i) data (?st i) (?ln i)
      :: 'l word cb_result_t option)"
  let ?g = "\<lambda>i. segment_sum data (?st i) (?st i + ?ln i) :: 'l word"
  have out: "snd (outs ! i) = Some (i, ?f i) \<and> result_sum (?f i) = ?g i" if i: "i < nat n" for i
  proof -
    from i have "i \<in> set [0..<nat n]" by simp
    with inr have "\<exists>c. ?sp i (?st i) (?ln i) = Inr c" by (rule bspec)
    then obtain c where c: "?sp i (?st i) (?ln i) = Inr c" ..
    have ci: "cmds ! i = c" using i c by (simp add: cmds)
    let ?wa = "\<lparr>worker_id = int i, shm_name = win_shm_name env,
                 array_size = array_length cfg, num_workers = n,
                 worker_start = ?st i, worker_length = ?ln i\<rparr>"
    from assms(4) have "list_all
             (\<lambda>i. case ?sp i (?st i) (?ln i) of
                    Inl err \<Rightarrow> True
                  | Inr cmdline \<Rightarrow>
                      (case cb_parse_args (we_libc env) (we_argv_of env cmdline)
                              (Some config_defaults) (Some False) (Some worker_args_zero) of
                         (err, c, is_worker, wa) \<Rightarrow>
                           err = CB_OK \<and> is_worker = Some True
                           \<and> wa = Some \<lparr>worker_id = int i, shm_name = win_shm_name env,
                                          array_size = array_length cfg, num_workers = n,
                                          worker_start = ?st i, worker_length = ?ln i\<rparr>))
             [0..<nat n]"
      unfolding worker_args_round_trip_def Let_def n_def[symmetric] L_def[symmetric] sd
      by (rule spec)
    then have "case ?sp i (?st i) (?ln i) of
                    Inl err \<Rightarrow> True
                  | Inr cmdline \<Rightarrow>
                      (case cb_parse_args (we_libc env) (we_argv_of env cmdline)
                              (Some config_defaults) (Some False) (Some worker_args_zero) of
                         (err, c, is_worker, wa) \<Rightarrow>
                           err = CB_OK \<and> is_worker = Some True
                           \<and> wa = Some \<lparr>worker_id = int i, shm_name = win_shm_name env,
                                          array_size = array_length cfg, num_workers = n,
                                          worker_start = ?st i, worker_length = ?ln i\<rparr>)"
      unfolding list_all_iff using \<open>i \<in> set [0..<nat n]\<close> by (rule bspec)
    with c have "case cb_parse_args (we_libc env) (we_argv_of env c)
                              (Some config_defaults) (Some False) (Some worker_args_zero) of
                         (err, cf, is_worker, wa) \<Rightarrow>
                           err = CB_OK \<and> is_worker = Some True \<and> wa = Some ?wa"
      by simp
    then obtain cf where
      "cb_parse_args (we_libc env) (we_argv_of env c)
         (Some config_defaults) (Some False) (Some worker_args_zero)
       = (CB_OK, cf, Some True, Some ?wa)"
      by (auto split: prod.splits)
    then have "?child i = cb_bench_process_worker_main rnd (we_shm_open env it i)
        (we_child_clock env it i) (win_shm_name env) data n ?wa"
      by (simp add: main_win_child_def ci)
    with ch[OF i] have "cb_bench_process_worker_main rnd (we_shm_open env it i)
        (we_child_clock env it i) (win_shm_name env) data n ?wa = Some (outs ! i)"
      by simp
    with ex0[OF i] have "cb_bench_process_worker_main rnd (we_shm_open env it i)
        (we_child_clock env it i) (win_shm_name env) data n ?wa = Some (0, snd (outs ! i))"
      by (metis prod.collapse)
    from worker_main_exit_0[OF this] obtain res :: "'l word cb_result_t" where
      res: "cb_array_sum rnd (we_child_clock env it i) data (?st i) (?ln i) = Some res"
        "snd (outs ! i) = Some (i, res)"
      by auto
    have "0 \<le> ?st i" using b r by (simp add: slice_at_def)
    moreover have "?st i + ?ln i = ws_start (slice_at b r (int i + 1))"
      using slice_at_next[OF r(1), of b "int i"] by simp
    moreover have "ws_start (slice_at b r (int i + 1)) \<le> ws_start (slice_at b r n)"
      using i b r by (intro slice_at_mono) auto
    moreover have "ws_start (slice_at b r n) = L"
      using r Leq by (simp add: slice_at_def min_def)
    ultimately have "0 \<le> ?st i" and "?st i + ?ln i \<le> int (length data)"
      using assms(3) by (simp_all add: L_def)
    from cb_array_sum_segment[OF this, of rnd "we_child_clock env it i", where 'a='l] res
    show ?thesis by simp
  qed
  have "map snd outs = map (\<lambda>i. Some (i, ?f i)) [0..<nat n]"
    by (rule nth_equalityI) (simp_all add: len out)
  then have "write_slots (map snd outs) (replicate (nat n) \<lparr>result_sum = 0, elapsed_sec = 0\<rparr>)
      = map ?f [0..<nat n]"
    using write_slots_from[of 0 "nat n" "replicate (nat n) \<lparr>result_sum = 0, elapsed_sec = 0\<rparr>" ?f]
    by simp
  with s have "s = (\<Sum>i\<leftarrow>[0..<nat n]. result_sum (map ?f [0..<nat n] ! i))"
    by (simp add: slot_loop_sum)
  also have "\<dots> = (\<Sum>i\<leftarrow>[0..<nat n]. ?g i)"
    by (intro arg_cong[where f = sum_list] map_cong refl) (simp add: out)
  also have "\<dots> = segment_sum data 0 (int (nat n) * b + r)"
    using b r n by (intro slices_total) auto
  also have "\<dots> = segment_sum data 0 L" using n Leq by simp
  finally show ?thesis by (simp add: L_def)
qed

lemma win_process_loop_sum:
  "win_process_loop rnd env exe data cfg iter (v :: ('l::len) word) t tr = Some (Inr (v', t'), tr') \<Longrightarrow>
   0 \<le> iter \<Longrightarrow> 1 \<le> num_processes cfg \<Longrightarrow> array_length cfg = int (length data) \<Longrightarrow>
   worker_args_round_trip env exe cfg \<Longrightarrow>
   v' = (if iter = 0 \<and> 0 < iterations cfg then segment_sum data 0 (array_length cfg) else v)"
proof (induction rnd env exe data cfg iter v t tr rule: win_process_loop.induct)
  case (1 rnd env exe data cfg iter v t tr)
  show ?case
  proof (cases "iter < iterations cfg")
    case False
    with 1(2) show ?thesis by (auto simp: win_process_loop.simps)
  next
    case True
    from 1(2) True show ?thesis
    proof (cases rule: win_process_loop_cases)
      case (fail err evs)
      then show ?thesis by simp
    next
      case (step s e evs)
      have s: "s = segment_sum data 0 (array_length cfg)"
        using win_process_iteration_sum[OF step(1) 1(4,5,6)] .
      have "v' = (if iter + 1 = 0 \<and> 0 < iterations cfg then segment_sum data 0 (array_length cfg)
                else (if iter = 0 then s else v))"
        using "1.IH"[OF True step(1) refl refl refl step(2)] 1(3,4,5,6) by simp
      then show ?thesis using 1(3) True s by (auto split: if_splits)
    qed
  qed
qed

lemma segment_sum_take:
  "b \<le> int m \<Longrightarrow> 0 \<le> a \<Longrightarrow> (segment_sum (take m ds) a b :: ('l::len) word) = segment_sum ds a b"
proof (cases "b \<le> a")
  case True
  then show ?thesis by (simp add: segment_sum_def)
next
  case False
  assume "b \<le> int m" "0 \<le> a"
  with False have "nat (b - a) \<le> m - nat a" by simp
  then have "take (nat (b - a)) (take (m - nat a) (drop (nat a) ds)) = take (nat (b - a)) (drop (nat a) ds)"
    by (simp add: min_def)
  then show ?thesis by (simp add: segment_sum_def drop_take)
qed

lemma win_process_run_sum:
  fixes r :: "('l::len) word cb_run_report_t"
  assumes "cb_bench_process_run_win rnd env (Some ds) (Some cfg) (Some rep) = Some (CB_OK, Some r, tr)"
    and "1 \<le> num_processes cfg"
    and "\<And>exe. we_exe_path env = Some exe \<Longrightarrow> worker_args_round_trip env exe cfg"
  shows "report_sum r = segment_sum ds 0 (array_length cfg)"
proof -
  from assms(1) obtain exe where exe: "we_exe_path env = Some exe"
    by (auto simp: cb_bench_process_run_win_def split: option.splits)
  let ?data = "take (nat (array_length cfg)) ds"
  from assms(1) exe have L: "0 \<le> array_length cfg" "array_length cfg \<le> int (length ds)"
    by (auto simp: cb_bench_process_run_win_def split: if_splits)
  from assms(1) exe obtain res tr' where
    pl: "win_process_loop rnd env exe ?data cfg 0 (0 :: 'l word) (replicate (nat (iterations cfg)) 0) []
          = Some (res, tr')"
    and fr: "case res of Inl err \<Rightarrow> err = CB_OK
             | Inr (v, t) \<Rightarrow> finish_report rnd ''process'' (num_processes cfg) cfg rep v t = Some (CB_OK, Some r)"
    by (auto simp: cb_bench_process_run_win_def split: if_splits option.splits sum.splits prod.splits)
  from win_process_loop_trace[OF pl _ exe] fr obtain v t where res: "res = Inr (v, t)"
    and fr': "finish_report rnd ''process'' (num_processes cfg) cfg rep v t = Some (CB_OK, Some r)"
    by (cases res) auto
  have len: "array_length cfg = int (length ?data)" using L by simp
  from finish_report_ok[OF fr'] have "report_sum r = v" "1 \<le> iterations cfg" by simp_all
  with win_process_loop_sum[OF pl[unfolded res] _ assms(2) len assms(3)[OF exe]]
  have "report_sum r = segment_sum ?data 0 (array_length cfg)" by simp
  also have "\<dots> = segment_sum ds 0 (array_length cfg)"
    using L by (intro segment_sum_take) simp_all
  finally show ?thesis .
qed

lemma example_round_trip:
  "worker_args_round_trip example_win_env (''C:'' @ [CHR 0x5C] @ ''cb'' @ [CHR 0x5C] @ ''concur-bench.exe'')
     (example_config\<lparr>num_processes := 3, iterations := 2\<rparr>)"
  by (simp add: worker_args_round_trip_def win_eval_simps eval_simps slice_at_def)

lemma cross_mode_sums_win:
  fixes r1 r2 :: "('l::len) word cb_run_report_t"
  assumes "int (length ds) = array_length cfg" and "1 \<le> num_processes cfg"
    and "cb_bench_single_run rnd se (Some ds) (Some cfg) (Some rep1) = Some (CB_OK, Some r1)"
    and "cb_bench_process_run_win rnd we (Some ds) (Some cfg) (Some rep2) = Some (CB_OK, Some r2, tr)"
    and "\<And>exe. we_exe_path we = Some exe \<Longrightarrow> worker_args_round_trip we exe cfg"
  shows "report_sum r2 = report_sum r1 \<and> report_sum r1 = sum_list (map word_of_int ds)"
proof -
  have L: "array_length cfg \<le> int (length ds)" using assms(1) by simp
  have full: "(segment_sum ds 0 (array_length cfg) :: 'l word) = sum_list (map word_of_int ds)"
    using segment_sum_full[of ds, where 'a='l] assms(1) by simp
  have 1: "report_sum r1 = segment_sum ds 0 (array_length cfg)"
    using single_run_sum[OF assms(3) L] .
  have 2: "report_sum r2 = segment_sum ds 0 (array_length cfg)"
    using win_process_run_sum[OF assms(4,2,5)] .
  from 1 2 full show ?thesis by simp
qed

lemma example_cross_mode_sums_win:
  "\<exists>r1 r2 tr.
     cb_bench_single_run (\<lambda>x. x) example_single_env (Some example_dataset)
       (Some (example_config\<lparr>num_processes := 3, iterations := 2\<rparr>)) (Some report_zero)
       = Some (CB_OK, Some r1)
   \<and> cb_bench_process_run_win (\<lambda>x. x) example_win_env (Some example_dataset)
       (Some (example_config\<lparr>num_processes := 3, iterations := 2\<rparr>)) (Some report_zero)
       = Some (CB_OK, Some r2, tr)
   \<and> report_sum r2 = report_sum r1 \<and> report_sum r1 = 113"
proof -
  let ?cfg = "example_config\<lparr>num_processes := 3, iterations := 2\<rparr>"
  obtain r1 where s: "cb_bench_single_run (\<lambda>x. x) example_single_env (Some example_dataset)
       (Some ?cfg) (Some report_zero) = Some (CB_OK, Some r1)" and v: "report_sum r1 = 113"
    by (simp add: cb_bench_single_run_def example_single_env_def single_loop.simps eval_simps)
  note w = example_win_run
  have rt: "\<And>exe. we_exe_path example_win_env = Some exe \<Longrightarrow>
      worker_args_round_trip example_win_env exe ?cfg"
    using example_round_trip by (simp add: example_win_env_def)
  have h1: "int (length example_dataset) = array_length ?cfg" and h2: "1 \<le> num_processes ?cfg"
    by (simp_all add: example_dataset_def example_config_def)
  from cross_mode_sums_win[OF h1 h2 s w rt] v s w show ?thesis by blast
qed

text \<open>
  Claim C1. The sums reported by the baseline, process and thread coordinators are
  identical. This fails in the Windows process coordinator when the path of the
  executable holds a blank: \<open>cb_process_spawn\<close> joins the arguments without quoting,
  the worker's \<open>main\<close> finds an unknown option, \<open>cb_parse_args\<close> returns
  \<open>CB_ERR_ARGS\<close> and \<open>main\<close> exits with code 0 before the worker has written its
  result slot. The coordinator takes the exit code 0 for success, adds up the slots it
  cleared and returns \<open>CB_OK\<close> with the sum 0, where the baseline, the thread
  coordinator, the Unix process coordinator and the Windows process coordinator under a
  path without blanks report 113 for the same dataset and configuration.
\<close>

theorem process_sum_blank_path:
  "map_option (\<lambda>(err, rep). (err, map_option report_sum rep))
     (cb_bench_single_run (\<lambda>x. x) example_single_env (Some example_dataset)
        (Some (example_config\<lparr>num_processes := 3, iterations := 2\<rparr>)) (Some report_zero))
     = Some (CB_OK, Some 113)
   \<and> map_option (\<lambda>(err, rep). (err, map_option report_sum rep))
     (cb_bench_thread_run (\<lambda>x. x) example_thread_env (Some example_dataset)
        (Some (example_config\<lparr>num_processes := 3, iterations := 2\<rparr>)) (Some report_zero))
     = Some (CB_OK, Some 113)
   \<and> map_option (\<lambda>(err, rep, tr). (err, map_option report_sum rep))
     (cb_bench_process_run (\<lambda>x. x) example_process_env (Some example_dataset)
        (Some (example_config\<lparr>num_processes := 3, iterations := 2\<rparr>)) (Some report_zero))
     = Some (CB_OK, Some 113)
   \<and> map_option (\<lambda>(err, rep, tr). (err, map_option report_sum rep))
     (cb_bench_process_run_win (\<lambda>x. x) example_win_env (Some example_dataset)
        (Some (example_config\<lparr>num_processes := 3, iterations := 2\<rparr>)) (Some report_zero))
     = Some (CB_OK, Some 113)
   \<and> map_option (\<lambda>(err, rep, tr). (err, map_option report_sum rep))
     (cb_bench_process_run_win (\<lambda>x. x) blank_path_win_env (Some example_dataset)
        (Some (example_config\<lparr>num_processes := 3, iterations := 2\<rparr>)) (Some report_zero))
     = Some (CB_OK, Some 0)
   \<and> we_argv_of blank_path_win_env
        (''C:'' @ [CHR 0x5C] @ ''Program Files'' @ [CHR 0x5C]
           @ ''concur-bench.exe --worker 0 concur_bench_7 4 3 0 2'')
     = [''C:'' @ [CHR 0x5C] @ ''Program'', ''Files'' @ [CHR 0x5C] @ ''concur-bench.exe'',
        ''--worker'', ''0'', ''concur_bench_7'', ''4'', ''3'', ''0'', ''2'']
   \<and> (main_win_child (we_libc blank_path_win_env) (\<lambda>x. x) (we_shm_open blank_path_win_env 0 0)
         (we_child_clock blank_path_win_env 0 0) (win_shm_name blank_path_win_env)
         example_dataset 3
         [''C:'' @ [CHR 0x5C] @ ''Program'', ''Files'' @ [CHR 0x5C] @ ''concur-bench.exe'',
          ''--worker'', ''0'', ''concur_bench_7'', ''4'', ''3'', ''0'', ''2'']
       :: (int \<times> (nat \<times> 64 word cb_result_t) option) option) = Some (0, None)"
proof -
  let ?cfg = "example_config\<lparr>num_processes := 3, iterations := 2\<rparr>"
  have 1: "map_option (\<lambda>(err, rep). (err, map_option report_sum rep))
     (cb_bench_single_run (\<lambda>x. x) example_single_env (Some example_dataset) (Some ?cfg)
        (Some report_zero)) = Some (CB_OK, Some 113)"
    by (simp add: cb_bench_single_run_def example_single_env_def single_loop.simps eval_simps)
  have 2: "map_option (\<lambda>(err, rep). (err, map_option report_sum rep))
     (cb_bench_thread_run (\<lambda>x. x) example_thread_env (Some example_dataset) (Some ?cfg)
        (Some report_zero)) = Some (CB_OK, Some 113)"
    by (simp add: cb_bench_thread_run_def example_thread_env_def thread_loop.simps eval_simps
      thread_iteration_def partition_slices_def slice_loop.simps signed_divide_int_def signed_modulo_int_def
      upt_rec[of _ "numeral _"] upt_rec[of _ "nat _"] cb_array_sum_thread_fn_def critical_section_def shared_init_def
      sort_key_def)
  have 3: "map_option (\<lambda>(err, rep, tr). (err, map_option report_sum rep))
     (cb_bench_process_run (\<lambda>x. x) example_process_env (Some example_dataset) (Some ?cfg)
        (Some report_zero)) = Some (CB_OK, Some 113)"
    by (simp add: cb_bench_process_run_def example_process_env_def process_loop.simps eval_simps
      process_iteration_def signed_divide_int_def signed_modulo_int_def
      upt_rec[of _ "numeral _"] upt_rec[of _ "nat _"] child_result_def
      cb_pipe_read_def pipe_read_loop.simps sys_read_def sizeof_cb_result_t_def)
  have 4: "map_option (\<lambda>(err, rep, tr). (err, map_option report_sum rep))
     (cb_bench_process_run_win (\<lambda>x. x) example_win_env (Some example_dataset) (Some ?cfg)
        (Some report_zero)) = Some (CB_OK, Some 113)"
    by (simp add: example_win_run)
  have 5: "map_option (\<lambda>(err, rep, tr). (err, map_option report_sum rep))
     (cb_bench_process_run_win (\<lambda>x. x) blank_path_win_env (Some example_dataset) (Some ?cfg)
        (Some report_zero)) = Some (CB_OK, Some 0)"
    by (simp add: example_blank_path_run)
  have 6: "we_argv_of blank_path_win_env
        (''C:'' @ [CHR 0x5C] @ ''Program Files'' @ [CHR 0x5C]
           @ ''concur-bench.exe --worker 0 concur_bench_7 4 3 0 2'')
     = [''C:'' @ [CHR 0x5C] @ ''Program'', ''Files'' @ [CHR 0x5C] @ ''concur-bench.exe'',
        ''--worker'', ''0'', ''concur_bench_7'', ''4'', ''3'', ''0'', ''2'']"
    by (simp add: blank_path_win_env_def example_win_env_def)
  have 7: "(main_win_child (we_libc blank_path_win_env) (\<lambda>x. x) (we_shm_open blank_path_win_env 0 0)
         (we_child_clock blank_path_win_env 0 0) (win_shm_name blank_path_win_env)
         example_dataset 3
         [''C:'' @ [CHR 0x5C] @ ''Program'', ''Files'' @ [CHR 0x5C] @ ''concur-bench.exe'',
          ''--worker'', ''0'', ''concur_bench_7'', ''4'', ''3'', ''0'', ''2'']
       :: (int \<times> (nat \<times> 64 word cb_result_t) option) option) = Some (0, None)"
    by (simp add: main_win_child_def cb_parse_args_def parse_loop.simps)
  from 1 2 3 4 5 6 7 show ?thesis by (intro conjI)
qed

end
